theory Spec2Isabelle
  imports Main "HOL-Library.Word" "HOL-Library.Multiset"
begin

unbundle bit_operations_syntax


section \<open>Go integer arithmetic\<close>

text \<open>Go's \<^verbatim>\<open>/\<close> and \<^verbatim>\<open>%\<close> on \<^verbatim>\<open>int\<close> truncate towards zero.\<close>

definition go_quo :: "int \<Rightarrow> int \<Rightarrow> int" where
  "go_quo a b = sgn a * sgn b * (\<bar>a\<bar> div \<bar>b\<bar>)"

definition go_rem :: "int \<Rightarrow> int \<Rightarrow> int" where
  "go_rem a b = a - b * go_quo a b"

section \<open>Layout (package board, layout.go)\<close>

text \<open>
  The Go struct \<^verbatim>\<open>Layout\<close>. \<^verbatim>\<open>PosToRegion\<close> is a \<^verbatim>\<open>[81]int\<close> and
  \<^verbatim>\<open>RegionToCells\<close> a \<^verbatim>\<open>[9][9]int\<close>; arrays are lists whose length the Go type fixes.
\<close>

record Layout =
  Type :: string
  PosToRegion :: "int list"
  RegionToCells :: "int list list"

text \<open>
  The errors of \<^verbatim>\<open>NewLayout\<close>, one constructor per \<^verbatim>\<open>fmt.Errorf\<close> of the source, carrying the
  numbers the message prints. \<open>IndexPanic\<close> stands for Go's index-out-of-range run-time panic.
\<close>

datatype layout_error =
    RegionOutOfRange nat int
  | RegionTooManyCells int
  | RegionWrongCount nat int
  | RegionNotContiguous nat int int
  | IndexPanic

text \<open>The first loop of \<^verbatim>\<open>buildRegionToCells\<close>, over the positions 0..80 in order.\<close>

fun build_loop ::
  "int list \<Rightarrow> nat list \<Rightarrow> int list list \<times> int list \<Rightarrow> layout_error + int list list \<times> int list"
where
  "build_loop p2r [] (r2c, counts) = Inr (r2c, counts)"
| "build_loop p2r (pos # rest) (r2c, counts) =
     (let r = p2r ! pos in
      if r < 0 \<or> r > 8 then Inl (RegionOutOfRange pos r)
      else if counts ! nat r \<ge> 9 then Inl (RegionTooManyCells r)
      else build_loop p2r rest
             (r2c[nat r := (r2c ! nat r)[nat (counts ! nat r) := int pos]],
              counts[nat r := counts ! nat r + 1]))"

text \<open>The second loop of \<^verbatim>\<open>buildRegionToCells\<close>: the first region whose count is not 9.\<close>

fun count_loop :: "int list \<Rightarrow> nat list \<Rightarrow> layout_error option" where
  "count_loop counts [] = None"
| "count_loop counts (r # rest) =
     (if counts ! r \<noteq> 9 then Some (RegionWrongCount r (counts ! r))
      else count_loop counts rest)"

definition buildRegionToCells :: "Layout \<Rightarrow> layout_error + Layout" where
  "buildRegionToCells l =
     (case build_loop (PosToRegion l) [0..<81] (RegionToCells l, replicate 9 0) of
        Inl e \<Rightarrow> Inl e
      | Inr (r2c, counts) \<Rightarrow>
          (case count_loop counts [0..<9] of
             Some e \<Rightarrow> Inl e
           | None \<Rightarrow> Inr (l\<lparr>RegionToCells := r2c\<rparr>)))"

text \<open>The state of the flood fill in \<^verbatim>\<open>validateContiguous\<close>.\<close>

record bfs_state =
  visited :: "bool list"
  queue :: "int list"
  head :: nat
  tail :: nat
  visitedCount :: int

text \<open>
  The inner loop over the four neighbours, each with its boundary flag. Reading
  \<^verbatim>\<open>inRegion[nb]\<close> or writing \<^verbatim>\<open>queue[tail]\<close> out of range panics in Go: \<open>None\<close>.
\<close>

fun visit_neighbors :: "bool list \<Rightarrow> (int \<times> bool) list \<Rightarrow> bfs_state \<Rightarrow> bfs_state option" where
  "visit_neighbors inRegion [] st = Some st"
| "visit_neighbors inRegion ((nb, ok) # rest) st =
     (if \<not> ok then visit_neighbors inRegion rest st
      else if nb < 0 \<or> nb \<ge> 81 then None
      else if inRegion ! nat nb \<and> \<not> visited st ! nat nb then
        (if tail st \<ge> 81 then None
         else visit_neighbors inRegion rest
                (st\<lparr>visited := (visited st)[nat nb := True],
                    visitedCount := visitedCount st + 1,
                    queue := (queue st)[tail st := nb],
                    tail := tail st + 1\<rparr>))
      else visit_neighbors inRegion rest st)"

definition neighbors4 :: "int \<Rightarrow> (int \<times> bool) list" where
  "neighbors4 pos =
     (let row = go_quo pos 9; col = go_rem pos 9 in
      [((row - 1) * 9 + col, row > 0),
       ((row + 1) * 9 + col, row < 8),
       (row * 9 + col - 1, col > 0),
       (row * 9 + col + 1, col < 8)])"

text \<open>The loop \<^verbatim>\<open>for head < tail\<close>. Reading \<^verbatim>\<open>queue[head]\<close> beyond the array panics.\<close>

function bfs_loop :: "bool list \<Rightarrow> bfs_state \<Rightarrow> bfs_state option" where
  "bfs_loop inRegion st =
     (if head st < tail st then
        (if head st \<ge> 81 then None
         else (case visit_neighbors inRegion (neighbors4 (queue st ! head st))
                      (st\<lparr>head := head st + 1\<rparr>) of
                 None \<Rightarrow> None
               | Some st' \<Rightarrow> bfs_loop inRegion st'))
      else Some st)"
  by pat_completeness auto

lemma visit_neighbors_head: "visit_neighbors inRegion nbs st = Some st' \<Longrightarrow> head st' = head st"
  by (induction inRegion nbs st rule: visit_neighbors.induct) (auto split: if_splits)

termination bfs_loop
  by (relation "measure (\<lambda>(inRegion, st). 81 - head st)")
     (auto dest!: visit_neighbors_head)

definition validateContiguous :: "Layout \<Rightarrow> nat \<Rightarrow> layout_error option" where
  "validateContiguous l region =
     (let cells = RegionToCells l ! region;
          inRegion = fold (\<lambda>pos a. a[nat pos := True]) cells (replicate 81 False);
          st0 = \<lparr>visited = (replicate 81 False)[nat (cells ! 0) := True],
                 queue = (replicate 81 0)[0 := cells ! 0],
                 head = 0, tail = 1, visitedCount = 1\<rparr>
      in case bfs_loop inRegion st0 of
           None \<Rightarrow> Some IndexPanic
         | Some st \<Rightarrow>
             if visitedCount st \<noteq> 9
             then Some (RegionNotContiguous region (visitedCount st) (cells ! 0))
             else None)"

fun Validate_loop :: "Layout \<Rightarrow> nat list \<Rightarrow> layout_error option" where
  "Validate_loop l [] = None"
| "Validate_loop l (r # rest) =
     (case validateContiguous l r of Some e \<Rightarrow> Some e | None \<Rightarrow> Validate_loop l rest)"

definition Validate :: "Layout \<Rightarrow> layout_error option" where
  "Validate l = Validate_loop l [0..<9]"

definition NewLayout :: "int list \<Rightarrow> layout_error + Layout" where
  "NewLayout regionMap =
     (let l = \<lparr>Type = ''jigsaw'', PosToRegion = regionMap,
                RegionToCells = replicate 9 (replicate 9 0)\<rparr>
      in case buildRegionToCells l of
           Inl e \<Rightarrow> Inl e
         | Inr l1 \<Rightarrow> (case Validate l1 of Some e \<Rightarrow> Inl e | None \<Rightarrow> Inr l1))"

definition standard_map :: "int list" where
  "standard_map = map (\<lambda>pos. 3 * (int pos div 27) + (int pos mod 9) div 3) [0..<81]"


text \<open>
  \<^verbatim>\<open>StandardLayout\<close> panics when \<^verbatim>\<open>NewLayout\<close> rejects the hard-coded map; the panic branch
  is the empty layout here, and \<open>NewLayout_standard_map\<close> below shows it is never taken.
\<close>

definition StandardLayout :: Layout where
  "StandardLayout =
     (case NewLayout standard_map of
        Inr l \<Rightarrow> l\<lparr>Type := ''standard''\<rparr>
      | Inl e \<Rightarrow> \<lparr>Type = ''panic'', PosToRegion = [], RegionToCells = []\<rparr>)"

section \<open>Board (package board, board.go and validation.go)\<close>

type_synonym mask = "64 word"

datatype unit_kind = InRow | InColumn | InRegion

text \<open>
  The three sentinel errors of the package. \<open>ErrIllegalMove\<close> carries what the wrapping
  message prints: the unit, the digit and the unit's index.
\<close>

datatype error =
    ErrInvalidPosition int
  | ErrInvalidValue int
  | ErrIllegalMove unit_kind int int

record Board =
  cells :: "int list"
  layout :: Layout
  rowMasks :: "mask list"
  colMasks :: "mask list"
  regionMasks :: "mask list"
  emptyCount :: int

text \<open>The lookup tables filled by \<^verbatim>\<open>init\<close>.\<close>

definition posToRow :: "int list" where
  "posToRow = map (\<lambda>pos. int pos div 9) [0..<81]"

definition posToCol :: "int list" where
  "posToCol = map (\<lambda>pos. int pos mod 9) [0..<81]"

definition MakePos :: "int \<Rightarrow> int \<Rightarrow> int" where
  "MakePos row col = (if row < 0 \<or> row \<ge> 9 \<or> col < 0 \<or> col \<ge> 9 then -1 else 9 * row + col)"

text \<open>\<^verbatim>\<open>uint(1 << (val - 1))\<close>; the callers below reach it with \<open>1 \<le> val\<close> only.\<close>

definition digit_mask :: "int \<Rightarrow> mask" where
  "digit_mask v = push_bit (nat (v - 1)) 1"

definition board_New :: "Layout option \<Rightarrow> Board" where
  "board_New lo =
     \<lparr>cells = replicate 81 0,
      layout = (case lo of None \<Rightarrow> StandardLayout | Some l \<Rightarrow> l),
      rowMasks = replicate 9 0, colMasks = replicate 9 0, regionMasks = replicate 9 0,
      emptyCount = 81\<rparr>"

definition isValidPosition :: "int \<Rightarrow> bool" where
  "isValidPosition pos \<longleftrightarrow> pos \<ge> 0 \<and> pos < 81"

definition validatePosition :: "int \<Rightarrow> error option" where
  "validatePosition pos = (if \<not> isValidPosition pos then Some (ErrInvalidPosition pos) else None)"

definition isValidValue :: "int \<Rightarrow> bool" where
  "isValidValue num \<longleftrightarrow> (num \<ge> 1 \<and> num \<le> 9) \<or> num = 0"

definition validateValue :: "int \<Rightarrow> error option" where
  "validateValue v = (if \<not> isValidValue v then Some (ErrInvalidValue v) else None)"

text \<open>
  \<^verbatim>\<open>Clear\<close>, \<^verbatim>\<open>Set\<close> and \<^verbatim>\<open>SetForce\<close> mutate the receiver: each returns the Board after the
  call, next to the error (\<open>None\<close> is Go's \<^verbatim>\<open>nil\<close>).
\<close>

definition Board_Clear :: "Board \<Rightarrow> int \<Rightarrow> error option \<times> Board" where
  "Board_Clear b pos =
     (case validatePosition pos of
        Some e \<Rightarrow> (Some e, b)
      | None \<Rightarrow>
          (let v = cells b ! nat pos in
           if v = 0 then (None, b)
           else
             (let row = nat (posToRow ! nat pos);
                  col = nat (posToCol ! nat pos);
                  region = nat (PosToRegion (layout b) ! nat pos);
                  m = digit_mask v
              in (None,
                  b\<lparr>cells := (cells b)[nat pos := 0],
                    rowMasks := (rowMasks b)[row := rowMasks b ! row AND NOT m],
                    colMasks := (colMasks b)[col := colMasks b ! col AND NOT m],
                    regionMasks := (regionMasks b)[region := regionMasks b ! region AND NOT m],
                    emptyCount := emptyCount b + 1\<rparr>))))"

definition Board_Set :: "Board \<Rightarrow> int \<Rightarrow> int \<Rightarrow> error option \<times> Board" where
  "Board_Set b pos v =
     (case validatePosition pos of
        Some e \<Rightarrow> (Some e, b)
      | None \<Rightarrow>
     (case validateValue v of
        Some e \<Rightarrow> (Some e, b)
      | None \<Rightarrow>
          if v = 0 then Board_Clear b pos
          else
            (let b1 = (if cells b ! nat pos \<noteq> 0 then snd (Board_Clear b pos) else b);
                 row = posToRow ! nat pos;
                 col = posToCol ! nat pos;
                 region = PosToRegion (layout b1) ! nat pos;
                 m = digit_mask v
             in if rowMasks b1 ! nat row AND m \<noteq> 0 then (Some (ErrIllegalMove InRow v row), b1)
                else if colMasks b1 ! nat col AND m \<noteq> 0 then (Some (ErrIllegalMove InColumn v col), b1)
                else if regionMasks b1 ! nat region AND m \<noteq> 0
                  then (Some (ErrIllegalMove InRegion v region), b1)
                else (None,
                      b1\<lparr>cells := (cells b1)[nat pos := v],
                         rowMasks := (rowMasks b1)[nat row := rowMasks b1 ! nat row OR m],
                         colMasks := (colMasks b1)[nat col := colMasks b1 ! nat col OR m],
                         regionMasks := (regionMasks b1)[nat region := regionMasks b1 ! nat region OR m],
                         emptyCount := emptyCount b1 - 1\<rparr>))))"

definition Board_SetForce :: "Board \<Rightarrow> int \<Rightarrow> int \<Rightarrow> Board" where
  "Board_SetForce b pos v =
     (let row = nat (posToRow ! nat pos);
          col = nat (posToCol ! nat pos);
          region = nat (PosToRegion (layout b) ! nat pos);
          m = digit_mask v
      in b\<lparr>cells := (cells b)[nat pos := v],
           rowMasks := (rowMasks b)[row := rowMasks b ! row OR m],
           colMasks := (colMasks b)[col := colMasks b ! col OR m],
           regionMasks := (regionMasks b)[region := regionMasks b ! region OR m],
           emptyCount := emptyCount b - 1\<rparr>)"

definition Board_Get :: "Board \<Rightarrow> int \<Rightarrow> int" where
  "Board_Get b pos = (if \<not> isValidPosition pos then -1 else cells b ! nat pos)"

definition Board_EmptyCount :: "Board \<Rightarrow> int" where
  "Board_EmptyCount b = emptyCount b"

definition Board_ClueCount :: "Board \<Rightarrow> int" where
  "Board_ClueCount b = 81 - emptyCount b"

text \<open>\<^verbatim>\<open>String\<close>: \<^verbatim>\<open>'0' + byte(cell)\<close> is arithmetic on bytes, which \<open>char_of\<close> truncates to.\<close>

definition Board_String :: "Board \<Rightarrow> string" where
  "Board_String b = map (\<lambda>cell. if cell = 0 then CHR ''.'' else char_of (48 + cell)) (cells b)"

text \<open>\<^verbatim>\<open>IsValid\<close>: the loop over the positions with its three local check arrays.\<close>

fun IsValid_loop :: "Board \<Rightarrow> nat list \<Rightarrow> mask list \<times> mask list \<times> mask list \<Rightarrow> bool" where
  "IsValid_loop b [] chk = True"
| "IsValid_loop b (pos # rest) (rowCheck, colCheck, regionCheck) =
     (let v = Board_Get b (int pos) in
      if v = 0 then IsValid_loop b rest (rowCheck, colCheck, regionCheck)
      else
        (let row = nat (posToRow ! pos);
             col = nat (posToCol ! pos);
             region = nat (PosToRegion (layout b) ! pos);
             m = digit_mask v
         in if rowCheck ! row AND m \<noteq> 0 \<or> colCheck ! col AND m \<noteq> 0
               \<or> regionCheck ! region AND m \<noteq> 0
            then False
            else IsValid_loop b rest
                   (rowCheck[row := rowCheck ! row OR m],
                    colCheck[col := colCheck ! col OR m],
                    regionCheck[region := regionCheck ! region OR m])))"

definition Board_IsValid :: "Board \<Rightarrow> bool" where
  "Board_IsValid b = IsValid_loop b [0..<81] (replicate 9 0, replicate 9 0, replicate 9 0)"

text \<open>
  \<^verbatim>\<open>NewFromString\<close>. Its three \<^verbatim>\<open>fmt.Errorf\<close> results: the length error, the invalid
  character, and the error of \<^verbatim>\<open>Set\<close> wrapped with the position.
\<close>

datatype parse_error =
    ErrLength nat
  | ErrInvalidChar char nat
  | ErrInvalidBoard nat error

fun NewFromString_loop :: "string \<Rightarrow> nat list \<Rightarrow> Board \<Rightarrow> parse_error + Board" where
  "NewFromString_loop s [] b = Inr b"
| "NewFromString_loop s (pos # rest) b =
     (let ch = s ! pos in
      if ch = CHR ''.'' \<or> ch = CHR ''0'' then NewFromString_loop s rest b
      else if ch \<in> set ''123456789'' then
        (let v = (of_char ch - 48) mod 256 in
         case Board_Set b (int pos) v of
           (Some e, b') \<Rightarrow> Inl (ErrInvalidBoard pos e)
         | (None, b') \<Rightarrow> NewFromString_loop s rest b')
      else Inl (ErrInvalidChar ch pos))"

definition NewFromString :: "string \<Rightarrow> Layout option \<Rightarrow> parse_error + Board" where
  "NewFromString s lo =
     (if length s \<noteq> 81 then Inl (ErrLength (length s))
      else NewFromString_loop s [0..<81] (board_New lo))"



section \<open>The invariant of a Board\<close>

text \<open>
  The units of a position: its row, its column, and its region under a layout. A layout is
  usable when its map has 81 entries, all in 0..8; \<^verbatim>\<open>NewLayout\<close> accepts no other.
\<close>

definition rowOf :: "nat \<Rightarrow> nat" where
  "rowOf pos = pos div 9"

definition colOf :: "nat \<Rightarrow> nat" where
  "colOf pos = pos mod 9"

definition regionOf :: "Layout \<Rightarrow> nat \<Rightarrow> nat" where
  "regionOf l pos = nat (PosToRegion l ! pos)"

definition layout_ok :: "Layout \<Rightarrow> bool" where
  "layout_ok l \<longleftrightarrow> length (PosToRegion l) = 81 \<and> (\<forall>r \<in> set (PosToRegion l). 0 \<le> r \<and> r \<le> 8)"

text \<open>
  \<open>unit_exact n cs u ms\<close>: for the unit family \<open>u\<close>, bit \<open>k\<close> of mask \<open>r\<close> is set exactly
  when one of the first \<open>n\<close> cells lies in unit \<open>r\<close> and holds the digit \<open>k + 1\<close>.
  \<open>unit_nodup cs u\<close>: no two cells of one unit hold the same digit.
\<close>

definition unit_exact :: "nat \<Rightarrow> int list \<Rightarrow> (nat \<Rightarrow> nat) \<Rightarrow> mask list \<Rightarrow> bool" where
  "unit_exact n cs u ms \<longleftrightarrow>
     length ms = 9 \<and>
     (\<forall>r<9. \<forall>k. bit (ms ! r) k \<longleftrightarrow> (\<exists>pos<n. u pos = r \<and> cs ! pos = int k + 1))"

definition unit_nodup :: "int list \<Rightarrow> (nat \<Rightarrow> nat) \<Rightarrow> bool" where
  "unit_nodup cs u \<longleftrightarrow>
     (\<forall>p<81. \<forall>q<81. p \<noteq> q \<longrightarrow> cs ! p \<noteq> 0 \<longrightarrow> cs ! p = cs ! q \<longrightarrow> u p \<noteq> u q)"

definition cells_ok :: "int list \<Rightarrow> bool" where
  "cells_ok cs \<longleftrightarrow> length cs = 81 \<and> (\<forall>p<81. 0 \<le> cs ! p \<and> cs ! p \<le> 9)"

definition board_inv :: "Board \<Rightarrow> bool" where
  "board_inv b \<longleftrightarrow>
     cells_ok (cells b) \<and> layout_ok (layout b) \<and>
     unit_exact 81 (cells b) rowOf (rowMasks b) \<and>
     unit_exact 81 (cells b) colOf (colMasks b) \<and>
     unit_exact 81 (cells b) (regionOf (layout b)) (regionMasks b) \<and>
     unit_nodup (cells b) rowOf \<and>
     unit_nodup (cells b) colOf \<and>
     unit_nodup (cells b) (regionOf (layout b)) \<and>
     emptyCount b = int (count_list (cells b) 0)"

text \<open>A sequence of calls of \<^verbatim>\<open>Set\<close> and \<^verbatim>\<open>Clear\<close>; \<open>None\<close> as soon as one of them fails.\<close>

datatype board_op = OpSet int int | OpClear int

fun apply_op :: "Board \<Rightarrow> board_op \<Rightarrow> error option \<times> Board" where
  "apply_op b (OpSet pos v) = Board_Set b pos v"
| "apply_op b (OpClear pos) = Board_Clear b pos"

fun apply_ops :: "Board \<Rightarrow> board_op list \<Rightarrow> Board option" where
  "apply_ops b [] = Some b"
| "apply_ops b (x # xs) =
     (case apply_op b x of (None, b') \<Rightarrow> apply_ops b' xs | (Some e, b') \<Rightarrow> None)"

text \<open>
  What \<^verbatim>\<open>NewFromString\<close> reads: the characters it accepts, the cell a character stands for,
  and the digits of a string being mutually consistent under a layout (no digit twice in a
  row, a column or a region).
\<close>

definition valid_char :: "char \<Rightarrow> bool" where
  "valid_char ch \<longleftrightarrow> ch \<in> set ''.0123456789''"

definition digit_char :: "char \<Rightarrow> bool" where
  "digit_char ch \<longleftrightarrow> ch \<in> set ''123456789''"

definition cell_of_char :: "char \<Rightarrow> int" where
  "cell_of_char ch = (if ch = CHR ''.'' \<or> ch = CHR ''0'' then 0 else (of_char ch - 48) mod 256)"

definition same_unit :: "Layout \<Rightarrow> nat \<Rightarrow> nat \<Rightarrow> bool" where
  "same_unit l p q \<longleftrightarrow> rowOf p = rowOf q \<or> colOf p = colOf q \<or> regionOf l p = regionOf l q"

definition string_consistent :: "Layout \<Rightarrow> string \<Rightarrow> bool" where
  "string_consistent l s \<longleftrightarrow>
     (\<forall>p<81. \<forall>q<81. p \<noteq> q \<longrightarrow> digit_char (s ! p) \<longrightarrow> s ! p = s ! q \<longrightarrow> \<not> same_unit l p q)"

definition dup_before :: "Layout \<Rightarrow> string \<Rightarrow> nat \<Rightarrow> bool" where
  "dup_before l s p \<longleftrightarrow> digit_char (s ! p) \<and> (\<exists>q<p. s ! q = s ! p \<and> same_unit l q p)"

definition prefix_cells :: "string \<Rightarrow> nat \<Rightarrow> int list" where
  "prefix_cells s n = map cell_of_char (take n s) @ replicate (81 - n) 0"

text \<open>
  How a Board comes to exist: \<^verbatim>\<open>New\<close> or a successful \<^verbatim>\<open>NewFromString\<close>, followed by
  successful calls of \<^verbatim>\<open>Set\<close> and \<^verbatim>\<open>Clear\<close>.
\<close>

datatype board_origin = FromNew "Layout option" | FromString string "Layout option"

fun origin_layout :: "board_origin \<Rightarrow> Layout" where
  "origin_layout (FromNew lo) = layout (board_New lo)"
| "origin_layout (FromString s lo) = layout (board_New lo)"

fun create_board :: "board_origin \<Rightarrow> Board option" where
  "create_board (FromNew lo) = Some (board_New lo)"
| "create_board (FromString s lo) =
     (case NewFromString s lo of Inl e \<Rightarrow> None | Inr b \<Rightarrow> Some b)"

definition reachable_board :: "board_origin \<Rightarrow> board_op list \<Rightarrow> Board option" where
  "reachable_board origin ops =
     (case create_board origin of None \<Rightarrow> None | Some b \<Rightarrow> apply_ops b ops)"


section \<open>What NewLayout checks\<close>

text \<open>
  The cells of region \<open>r\<close> among the first \<open>n\<close> positions of a region map, in ascending
  order; orthogonal adjacency of two positions of the 9 by 9 grid; and a region being
  orthogonally contiguous: any two of its cells are joined by a path of adjacent cells of
  the region.
\<close>

definition region_positions :: "int list \<Rightarrow> nat \<Rightarrow> nat \<Rightarrow> nat list" where
  "region_positions rm n r = filter (\<lambda>p. rm ! p = int r) [0..<n]"

definition region_cells :: "int list \<Rightarrow> nat \<Rightarrow> nat set" where
  "region_cells rm r = {p. p < 81 \<and> rm ! p = int r}"

definition entries_in_range :: "int list \<Rightarrow> bool" where
  "entries_in_range rm \<longleftrightarrow> (\<forall>p<81. 0 \<le> rm ! p \<and> rm ! p \<le> 8)"

definition adjacent :: "nat \<Rightarrow> nat \<Rightarrow> bool" where
  "adjacent p q \<longleftrightarrow>
     (rowOf p = rowOf q \<and> (colOf p + 1 = colOf q \<or> colOf q + 1 = colOf p)) \<or>
     (colOf p = colOf q \<and> (rowOf p + 1 = rowOf q \<or> rowOf q + 1 = rowOf p))"

definition region_edges :: "nat set \<Rightarrow> (nat \<times> nat) set" where
  "region_edges S = {(a, b). a \<in> S \<and> b \<in> S \<and> adjacent a b}"

definition contiguous :: "nat set \<Rightarrow> bool" where
  "contiguous S \<longleftrightarrow> (\<forall>p \<in> S. \<forall>q \<in> S. (p, q) \<in> (region_edges S)\<^sup>*)"

text \<open>
  The first loop of \<^verbatim>\<open>buildRegionToCells\<close> stops at the first position whose entry is out
  of range or whose region already holds 9 cells.
\<close>

definition bad_position :: "int list \<Rightarrow> nat \<Rightarrow> bool" where
  "bad_position rm p \<longleftrightarrow>
     rm ! p < 0 \<or> rm ! p > 8 \<or> 9 \<le> length (region_positions rm p (nat (rm ! p)))"

definition bad_position_error :: "int list \<Rightarrow> nat \<Rightarrow> layout_error" where
  "bad_position_error rm p =
     (if rm ! p < 0 \<or> rm ! p > 8 then RegionOutOfRange p (rm ! p) else RegionTooManyCells (rm ! p))"

text \<open>The invariant of the flood fill over the cells \<open>S\<close> of a region, started at \<open>p0\<close>.\<close>

definition queued :: "bfs_state \<Rightarrow> int set" where
  "queued st = set (take (tail st) (queue st))"

definition bfs_inv :: "nat set \<Rightarrow> nat \<Rightarrow> bfs_state \<Rightarrow> bool" where
  "bfs_inv S p0 st \<longleftrightarrow>
     length (visited st) = 81 \<and> length (queue st) = 81 \<and>
     head st \<le> tail st \<and> tail st \<le> 81 \<and> visitedCount st = int (tail st) \<and>
     distinct (take (tail st) (queue st)) \<and>
     (\<forall>p<81. visited st ! p \<longleftrightarrow> int p \<in> queued st) \<and>
     (\<forall>x \<in> queued st. \<exists>p. x = int p \<and> p \<in> S \<and> (p0, p) \<in> (region_edges S)\<^sup>*) \<and>
     int p0 \<in> queued st"

definition closed_upto :: "nat set \<Rightarrow> bfs_state \<Rightarrow> nat \<Rightarrow> bool" where
  "closed_upto S st h \<longleftrightarrow>
     (\<forall>i<h. \<forall>q. (nat (queue st ! i), q) \<in> region_edges S \<longrightarrow> int q \<in> queued st)"

definition region_setup :: "nat set \<Rightarrow> bool list \<Rightarrow> bool" where
  "region_setup S inRegion \<longleftrightarrow>
     length inRegion = 81 \<and> (\<forall>p<81. inRegion ! p \<longleftrightarrow> p \<in> S) \<and> (\<forall>p \<in> S. p < 81)"

definition build_inv :: "int list \<Rightarrow> nat \<Rightarrow> int list list \<times> int list \<Rightarrow> bool" where
  "build_inv rm n st \<longleftrightarrow>
     (case st of (r2c, counts) \<Rightarrow>
        length r2c = 9 \<and> length counts = 9 \<and>
        (\<forall>r<9. length (r2c ! r) = 9 \<and>
               counts ! r = int (length (region_positions rm n r)) \<and> counts ! r \<le> 9 \<and>
               take (nat (counts ! r)) (r2c ! r) = map int (region_positions rm n r)))"

text \<open>How many cells of region \<open>r\<close> the region's first cell reaches inside the region.\<close>

definition reach_count :: "int list \<Rightarrow> nat \<Rightarrow> nat" where
  "reach_count rm r =
     card {q. (hd (region_positions rm 81 r), q) \<in> (region_edges (region_cells rm r))\<^sup>*}"


section \<open>Candidates (package board, board.go)\<close>

definition allNine :: mask where
  "allNine = 511"

definition Board_GetCandidatesMask :: "Board \<Rightarrow> int \<Rightarrow> mask" where
  "Board_GetCandidatesMask b pos =
     (if \<not> isValidPosition pos then 0
      else
        (let row = nat (posToRow ! nat pos);
             col = nat (posToCol ! nat pos);
             region = nat (PosToRegion (layout b) ! nat pos)
         in ((allNine AND NOT (rowMasks b ! row)) AND NOT (colMasks b ! col))
              AND NOT (regionMasks b ! region)))"

definition Board_GetCandidates :: "Board \<Rightarrow> int \<Rightarrow> int list" where
  "Board_GetCandidates b pos =
     filter (\<lambda>num. Board_GetCandidatesMask b pos AND digit_mask num \<noteq> 0) [1..9]"

definition Board_RegionCells :: "Board \<Rightarrow> nat \<Rightarrow> int list" where
  "Board_RegionCells b region = RegionToCells (layout b) ! region"

section \<open>The random source and the clock\<close>

text \<open>
  \<^verbatim>\<open>math/rand\<close> and \<^verbatim>\<open>math/bits\<close> are Go's library, not code of the repository. A random
  source is the tape of the numbers it will draw; \<^verbatim>\<open>Intn\<close> reduces the next one to the
  bound. \<^verbatim>\<open>Shuffle\<close> and \<^verbatim>\<open>Perm\<close> are the library's Fisher-Yates loops over \<^verbatim>\<open>Intn\<close>. Which
  tape \<^verbatim>\<open>rand.NewSource(seed)\<close> yields is a parameter \<open>src\<close> of the functions that
  create a source.
\<close>

type_synonym rng = "nat list"

definition Intn :: "nat \<Rightarrow> rng \<Rightarrow> nat \<times> rng" where
  "Intn n r = (case r of [] \<Rightarrow> (0, []) | x # xs \<Rightarrow> (x mod n, xs))"

definition swap :: "nat \<Rightarrow> nat \<Rightarrow> 'a list \<Rightarrow> 'a list" where
  "swap i j xs = xs[i := xs ! j, j := xs ! i]"

fun Shuffle_from :: "nat \<Rightarrow> 'a list \<Rightarrow> rng \<Rightarrow> 'a list \<times> rng" where
  "Shuffle_from 0 xs r = (xs, r)"
| "Shuffle_from (Suc i) xs r =
     (case Intn (Suc i + 1) r of (j, r') \<Rightarrow> Shuffle_from i (swap (Suc i) j xs) r')"

definition Shuffle :: "'a list \<Rightarrow> rng \<Rightarrow> 'a list \<times> rng" where
  "Shuffle xs r = Shuffle_from (length xs - 1) xs r"

fun Perm_loop :: "nat list \<Rightarrow> nat list \<Rightarrow> rng \<Rightarrow> nat list \<times> rng" where
  "Perm_loop [] m r = (m, r)"
| "Perm_loop (i # rest) m r =
     (case Intn (i + 1) r of (j, r') \<Rightarrow> Perm_loop rest ((m[i := m ! j])[j := i]) r')"

definition Perm :: "nat \<Rightarrow> rng \<Rightarrow> nat list \<times> rng" where
  "Perm n r = Perm_loop [0..<n] (replicate n 0) r"

text \<open>\<^verbatim>\<open>bits.OnesCount\<close> and \<^verbatim>\<open>bits.TrailingZeros\<close> (64 for the zero word).\<close>

definition OnesCount :: "mask \<Rightarrow> nat" where
  "OnesCount w = length (filter (bit w) [0..<64])"

definition TrailingZeros :: "mask \<Rightarrow> nat" where
  "TrailingZeros w = length (takeWhile (\<lambda>n. \<not> bit w n) [0..<64])"

text \<open>
  A cancellable context reduced to what \<^verbatim>\<open>backtrack\<close> observes: how many more polls of
  \<^verbatim>\<open>ctx.Done()\<close> find it open before the deadline has passed (\<open>None\<close>: no deadline). Once
  done it stays done.
\<close>

type_synonym ctx = "nat option"

definition ctx_Done :: "ctx \<Rightarrow> bool \<times> ctx" where
  "ctx_Done c =
     (case c of None \<Rightarrow> (False, None) | Some 0 \<Rightarrow> (True, Some 0) | Some (Suc n) \<Rightarrow> (False, Some n))"

section \<open>Solver (package solver)\<close>

datatype solver_error =
    ErrNoSolution | ErrMultipleSolutions | ErrInvalidPuzzle | ErrTimeout | NilPointerPanic

record solver_Options =
  MaxSolutions :: int
  Randomize :: bool
  Timeout :: int

text \<open>
  Modelled from the spec: \<^verbatim>\<open>makeContext\<close>, which is called by \<^verbatim>\<open>Solve\<close> and is not among the
  sources. The spec gives the timeout as a duration with 0 meaning unbounded; \<open>polls\<close> is
  how many polls the clock lets pass before a positive timeout has elapsed.
\<close>

definition makeContext :: "solver_Options \<Rightarrow> nat \<Rightarrow> ctx" where
  "makeContext opts polls = (if Timeout opts = 0 then None else Some polls)"

text \<open>
  The methods below touch the solver only through the Board its pointer refers to (and,
  where they shuffle, its random source): they take and return that Board.
\<close>

fun applyNakedSingles_loop :: "nat list \<Rightarrow> Board \<times> bool \<Rightarrow> Board \<times> bool" where
  "applyNakedSingles_loop [] (b, changed) = (b, changed)"
| "applyNakedSingles_loop (pos # rest) (b, changed) =
     (if Board_Get b (int pos) = 0 then
        (let m = Board_GetCandidatesMask b (int pos) in
         if m = 0 then (b, changed)
         else if OnesCount m = 1
           then applyNakedSingles_loop rest
                  (Board_SetForce b (int pos) (int (TrailingZeros m) + 1), True)
         else applyNakedSingles_loop rest (b, changed))
      else applyNakedSingles_loop rest (b, changed))"

definition applyNakedSingles :: "Board \<Rightarrow> Board \<times> bool" where
  "applyNakedSingles b = applyNakedSingles_loop [0..<81] (b, False)"

text \<open>
  The three \<^verbatim>\<open>findHiddenSinglesIn...\<close> methods share their body: first, over the cells of
  the unit, the table \<^verbatim>\<open>valuePossibilities\<close> (which empty cells can hold each value), read
  from the Board before any placement; then, for the values 1..9, the placement of each
  value that has one possible cell.
\<close>

definition add_possibilities :: "Board \<Rightarrow> int \<Rightarrow> int list list \<Rightarrow> int list list" where
  "add_possibilities b pos vp =
     (if Board_Get b pos = 0
      then fold (\<lambda>v vp. vp[nat v := vp ! nat v @ [pos]]) (Board_GetCandidates b pos) vp
      else vp)"

definition valuePossibilities :: "Board \<Rightarrow> int list \<Rightarrow> int list list" where
  "valuePossibilities b unit_cells = fold (add_possibilities b) unit_cells (replicate 10 [])"

fun place_singles :: "int list list \<Rightarrow> int list \<Rightarrow> Board \<times> bool \<Rightarrow> Board \<times> bool" where
  "place_singles vp [] (b, changed) = (b, changed)"
| "place_singles vp (v # vs) (b, changed) =
     (if length (vp ! nat v) = 1
      then place_singles vp vs (Board_SetForce b (vp ! nat v ! 0) v, True)
      else place_singles vp vs (b, changed))"

definition findHiddenSingles :: "int list \<Rightarrow> Board \<Rightarrow> Board \<times> bool" where
  "findHiddenSingles unit_cells b = place_singles (valuePossibilities b unit_cells) [1..9] (b, False)"

definition findHiddenSinglesInRow :: "int \<Rightarrow> Board \<Rightarrow> Board \<times> bool" where
  "findHiddenSinglesInRow row b = findHiddenSingles (map (\<lambda>col. MakePos row col) [0..8]) b"

definition findHiddenSinglesInCol :: "int \<Rightarrow> Board \<Rightarrow> Board \<times> bool" where
  "findHiddenSinglesInCol col b = findHiddenSingles (map (\<lambda>row. MakePos row col) [0..8]) b"

definition findHiddenSinglesInRegion :: "nat \<Rightarrow> Board \<Rightarrow> Board \<times> bool" where
  "findHiddenSinglesInRegion region b = findHiddenSingles (Board_RegionCells b region) b"

text \<open>\<^verbatim>\<open>changed = s.find...(x) || changed\<close>, for each unit in turn.\<close>

fun over_units :: "('u \<Rightarrow> Board \<Rightarrow> Board \<times> bool) \<Rightarrow> 'u list \<Rightarrow> Board \<times> bool \<Rightarrow> Board \<times> bool" where
  "over_units f [] (b, changed) = (b, changed)"
| "over_units f (x # xs) (b, changed) =
     (case f x b of (b', c) \<Rightarrow> over_units f xs (b', c \<or> changed))"

definition applyHiddenSingles :: "Board \<Rightarrow> Board \<times> bool" where
  "applyHiddenSingles b =
     over_units findHiddenSinglesInRegion [0..<9]
       (over_units findHiddenSinglesInCol [0..8]
          (over_units findHiddenSinglesInRow [0..8] (b, False)))"

definition hasContradiction :: "Board \<Rightarrow> bool" where
  "hasContradiction b \<longleftrightarrow>
     (\<exists>pos \<in> set [0..<81]. Board_Get b (int pos) = 0 \<and> Board_GetCandidatesMask b (int pos) = 0)"

text \<open>
  \<^verbatim>\<open>PropagateConstraints\<close>: the loop runs while \<^verbatim>\<open>changed\<close> and fewer than 81 * 81
  iterations were made; the recursion is on the iterations that remain.
\<close>

fun PropagateConstraints_loop :: "nat \<Rightarrow> Board \<Rightarrow> solver_error option \<times> Board" where
  "PropagateConstraints_loop 0 b = (None, b)"
| "PropagateConstraints_loop (Suc k) b =
     (case applyNakedSingles b of (b1, c1) \<Rightarrow>
      case applyHiddenSingles b1 of (b2, c2) \<Rightarrow>
        if hasContradiction b2 then (Some ErrNoSolution, b2)
        else if c1 \<or> c2 then PropagateConstraints_loop k b2
        else (None, b2))"

definition PropagateConstraints :: "Board \<Rightarrow> solver_error option \<times> Board" where
  "PropagateConstraints b = PropagateConstraints_loop (81 * 81) b"

fun FindMRVCell_loop :: "Board \<Rightarrow> nat list \<Rightarrow> int \<times> int \<times> int list \<Rightarrow> int \<times> int list" where
  "FindMRVCell_loop b [] (mrvPos, mrvCount, mrvCandidates) = (mrvPos, mrvCandidates)"
| "FindMRVCell_loop b (pos # rest) (mrvPos, mrvCount, mrvCandidates) =
     (if Board_Get b (int pos) = 0 then
        (let candidates = Board_GetCandidates b (int pos);
             cnt = int (length candidates)
         in if cnt < mrvCount then
              (if cnt \<le> 1 then (int pos, candidates)
               else FindMRVCell_loop b rest (int pos, cnt, candidates))
            else FindMRVCell_loop b rest (mrvPos, mrvCount, mrvCandidates))
      else FindMRVCell_loop b rest (mrvPos, mrvCount, mrvCandidates))"

definition FindMRVCell :: "Board \<Rightarrow> int \<times> int list" where
  "FindMRVCell b = FindMRVCell_loop b [0..<81] (-1, 10, [])"

text \<open>\<^verbatim>\<open>if s.options.Randomize && s.rng != nil { s.rng.Shuffle(...) }\<close>\<close>

definition maybe_shuffle :: "solver_Options \<Rightarrow> 'a list \<Rightarrow> rng option \<Rightarrow> 'a list \<times> rng option" where
  "maybe_shuffle opts xs r =
     (case r of
        Some t \<Rightarrow> if Randomize opts then (case Shuffle xs t of (ys, t') \<Rightarrow> (ys, Some t')) else (xs, r)
      | None \<Rightarrow> (xs, r))"

text \<open>
  \<^verbatim>\<open>backtrack\<close> recurses once for each guess; \<open>fuel\<close> bounds the depth of the recursion and
  \<open>None\<close> means it was used up (\<open>backtrack_returns\<close> below: 82 is always enough). The loop
  over the candidates is \<open>try_candidates\<close>, given the recursive call as \<open>rec\<close>.
\<close>

fun try_candidates ::
  "(Board \<times> rng option \<times> ctx \<Rightarrow> (bool \<times> Board \<times> rng option \<times> ctx) option) \<Rightarrow> int \<Rightarrow> int list \<Rightarrow>
   Board \<times> rng option \<times> ctx \<Rightarrow> (bool \<times> Board \<times> rng option \<times> ctx) option"
where
  "try_candidates rec pos [] st = Some (False, st)"
| "try_candidates rec pos (v # vs) (b, r, c) =
     (case rec (Board_SetForce b pos v, r, c) of
        None \<Rightarrow> None
      | Some (True, st') \<Rightarrow> Some (True, st')
      | Some (False, b', r', c') \<Rightarrow> try_candidates rec pos vs (snd (Board_Clear b' pos), r', c'))"

fun backtrack ::
  "nat \<Rightarrow> solver_Options \<Rightarrow> Board \<times> rng option \<times> ctx \<Rightarrow> (bool \<times> Board \<times> rng option \<times> ctx) option"
where
  "backtrack 0 opts st = None"
| "backtrack (Suc fuel) opts (b, r, c) =
     (case ctx_Done c of
        (True, c1) \<Rightarrow> Some (False, b, r, c1)
      | (False, c1) \<Rightarrow>
          (case PropagateConstraints b of
             (Some e, b1) \<Rightarrow> Some (False, b1, r, c1)
           | (None, b1) \<Rightarrow>
               if Board_EmptyCount b1 = 0 then Some (True, b1, r, c1)
               else
                 (case FindMRVCell b1 of
                    (pos, candidates) \<Rightarrow>
                      if length candidates = 0 then Some (False, b1, r, c1)
                      else
                        (case maybe_shuffle opts candidates r of
                           (shuffled, r1) \<Rightarrow>
                             try_candidates (backtrack fuel opts) pos shuffled (b1, r1, c1)))))"

fun fill_box :: "int \<Rightarrow> int \<Rightarrow> (nat \<times> int) list \<Rightarrow> Board \<Rightarrow> Board" where
  "fill_box boxRow boxCol [] b = b"
| "fill_box boxRow boxCol ((j, v) # rest) b =
     fill_box boxRow boxCol rest
       (Board_SetForce b ((boxRow + int (j div 3)) * 9 + boxCol + int (j mod 3)) v)"

fun fill_boxes ::
  "solver_Options \<Rightarrow> (int \<times> int) list \<Rightarrow> int list \<Rightarrow> Board \<times> rng option \<Rightarrow> Board \<times> rng option"
where
  "fill_boxes opts [] nums (b, r) = (b, r)"
| "fill_boxes opts ((boxRow, boxCol) # rest) nums (b, r) =
     (case maybe_shuffle opts nums r of
        (nums', r') \<Rightarrow>
          fill_boxes opts rest nums' (fill_box boxRow boxCol (zip [0..<length nums'] nums') b, r'))"

definition fillThreeBoxes :: "solver_Options \<Rightarrow> Board \<times> rng option \<Rightarrow> Board \<times> rng option" where
  "fillThreeBoxes opts st =
     (case st of (b, r) \<Rightarrow>
      case maybe_shuffle opts [0, 3, 6] r of
        (boxColumns, r1) \<Rightarrow> fill_boxes opts (zip [0, 3, 6] boxColumns) [1..9] (b, r1))"

text \<open>
  \<^verbatim>\<open>Solve\<close> on the solver's Board: the outcome (\<open>Inr ()\<close> when the Board is returned), and
  the Board and the random source after the call.
\<close>

definition Solve_board ::
  "nat \<Rightarrow> solver_Options \<Rightarrow> nat \<Rightarrow> Board \<times> rng option \<Rightarrow> ((solver_error + unit) \<times> Board \<times> rng option) option"
where
  "Solve_board fuel opts polls st =
     (case st of (b, r) \<Rightarrow>
      if \<not> Board_IsValid b then Some (Inl ErrInvalidPuzzle, b, r)
      else
        (case (if Board_EmptyCount b = 81 \<and> Type (layout b) = ''standard''
               then fillThreeBoxes opts (b, r) else (b, r)) of
           (b1, r1) \<Rightarrow>
             (case PropagateConstraints b1 of
                (Some e, b2) \<Rightarrow> Some (Inl e, b2, r1)
              | (None, b2) \<Rightarrow>
                  if Board_EmptyCount b2 = 0 then Some (Inr (), b2, r1)
                  else
                    (case backtrack fuel opts (b2, r1, makeContext opts polls) of
                       None \<Rightarrow> None
                     | Some (ok, b3, r3, c3) \<Rightarrow>
                         if \<not> ok then Some (Inl ErrNoSolution, b3, r3)
                         else Some (Inr (), b3, r3)))))"

text \<open>\<^verbatim>\<open>traceDifficulty\<close>, with the same bound on the depth of its recursion.\<close>

fun score_candidates ::
  "(Board \<Rightarrow> (int \<times> Board) option) \<Rightarrow> int \<Rightarrow> int list \<Rightarrow> int \<times> Board \<Rightarrow> (int \<times> Board) option"
where
  "score_candidates rec cell [] (score, b) = Some (score, b)"
| "score_candidates rec cell (v # vs) (score, b) =
     (case rec (Board_SetForce b cell v) of
        None \<Rightarrow> None
      | Some (d, b') \<Rightarrow> score_candidates rec cell vs (score + (1 + d), snd (Board_Clear b' cell)))"

fun traceDifficulty :: "nat \<Rightarrow> Board \<Rightarrow> (int \<times> Board) option" where
  "traceDifficulty 0 b = None"
| "traceDifficulty (Suc fuel) b =
     (if Board_EmptyCount b = 0 then Some (0, b)
      else
        (case FindMRVCell b of
           (cell, candidates) \<Rightarrow>
             if length candidates = 0 then Some (0, b)
             else score_candidates (traceDifficulty fuel) cell candidates (0, b)))"


section \<open>Generator (package generator)\<close>

datatype generator_error = ErrGenerationFailed | ErrInvalidClueCount | ErrDiggingFailed

record generator_Options =
  ClueCount :: int
  Timeout :: int
  Seed :: int
  EnsureUnique :: bool
  Layout :: "Layout option"

definition generator_DefaultOptions :: "int \<Rightarrow> generator_Options" where
  "generator_DefaultOptions clueCount =
     \<lparr>ClueCount = min (max clueCount 17) 80, Timeout = 10 * 1000000000, Seed = 0,
      EnsureUnique = True, Layout = None\<rparr>"

text \<open>
  \<^verbatim>\<open>generator.New\<close>: the generator's random source is seeded with \<^verbatim>\<open>Seed\<close>, or with the
  clock (\<open>now\<close> is \<^verbatim>\<open>time.Now().UnixNano()\<close>) when \<^verbatim>\<open>Seed\<close> is 0.
\<close>

record Generator =
  options :: generator_Options
  rng :: rng

definition generator_New :: "(int \<Rightarrow> rng) \<Rightarrow> int \<Rightarrow> generator_Options option \<Rightarrow> Generator" where
  "generator_New src now opts =
     (let options = (case opts of None \<Rightarrow> generator_DefaultOptions 32 | Some o1 \<Rightarrow> o1);
          seed = (if Seed options = 0 then now else Seed options)
      in \<lparr>options = options, rng = src seed\<rparr>)"

text \<open>
  \<^verbatim>\<open>countSolutions\<close>: its closure \<^verbatim>\<open>backtrack\<close> works on clones and shares the counter
  \<^verbatim>\<open>count\<close>; the loop over the candidates is \<open>count_candidates\<close>. \<open>fuel\<close> bounds the depth
  of the recursion, as in the solver.
\<close>

fun count_candidates ::
  "(Board \<Rightarrow> int \<Rightarrow> (bool \<times> int) option) \<Rightarrow> Board \<Rightarrow> int \<Rightarrow> int list \<Rightarrow> int \<Rightarrow> (bool \<times> int) option"
where
  "count_candidates rec b pos [] cnt = Some (cnt < 2, cnt)"
| "count_candidates rec b pos (v # vs) cnt =
     (if cnt \<ge> 2 then Some (False, cnt)
      else
        (case rec (Board_SetForce b pos v) cnt of
           None \<Rightarrow> None
         | Some (ok, cnt') \<Rightarrow> count_candidates rec b pos vs cnt'))"

fun count_backtrack :: "nat \<Rightarrow> Board \<Rightarrow> int \<Rightarrow> (bool \<times> int) option" where
  "count_backtrack 0 b cnt = None"
| "count_backtrack (Suc fuel) b cnt =
     (case PropagateConstraints b of
        (Some e, b1) \<Rightarrow> Some (False, cnt)
      | (None, b1) \<Rightarrow>
          if Board_EmptyCount b1 = 0 then Some (cnt + 1 < 2, cnt + 1)
          else
            (case FindMRVCell b1 of
               (pos, candidates) \<Rightarrow>
                 if length candidates = 0 then Some (False, cnt)
                 else count_candidates (count_backtrack fuel) b1 pos candidates cnt))"

definition countSolutions :: "nat \<Rightarrow> Board \<Rightarrow> int option" where
  "countSolutions fuel b = map_option snd (count_backtrack fuel b 0)"

definition hasUniqueSolution :: "nat \<Rightarrow> Board \<Rightarrow> bool option" where
  "hasUniqueSolution fuel puzzle = map_option (\<lambda>solutions. solutions = 1) (countSolutions fuel puzzle)"

text \<open>
  What one iteration of the loop of \<^verbatim>\<open>Generate\<close> reads from the clock: the time at which
  \<^verbatim>\<open>generateSolution\<close> creates its solver, and how many polls that solver's context stays
  open.
\<close>

record attempt =
  solver_now :: int
  solver_polls :: nat

definition generateSolution ::
  "nat \<Rightarrow> (int \<Rightarrow> rng) \<Rightarrow> generator_Options \<Rightarrow> attempt \<Rightarrow> (solver_error + Board) option"
where
  "generateSolution fuel src opts a =
     (case Solve_board fuel
             \<lparr>MaxSolutions = 1, Randomize = True, Timeout = generator_Options.Timeout opts\<rparr>
             (solver_polls a) (board_New (Layout opts), Some (src (solver_now a))) of
        None \<Rightarrow> None
      | Some (Inl e, b, r) \<Rightarrow> Some (Inl e)
      | Some (Inr u, b, r) \<Rightarrow> Some (Inr b))"

fun removeCells_loop ::
  "nat \<Rightarrow> generator_Options \<Rightarrow> int \<Rightarrow> nat list \<Rightarrow> Board \<times> int \<Rightarrow> (Board \<times> int) option"
where
  "removeCells_loop fuel opts cellsToRemove [] (puzzle, cellsRemoved) = Some (puzzle, cellsRemoved)"
| "removeCells_loop fuel opts cellsToRemove (pos # rest) (puzzle, cellsRemoved) =
     (if cellsRemoved \<ge> cellsToRemove then Some (puzzle, cellsRemoved)
      else
        (let v = Board_Get puzzle (int pos) in
         if v = 0 then removeCells_loop fuel opts cellsToRemove rest (puzzle, cellsRemoved)
         else
           (let p1 = snd (Board_Clear puzzle (int pos)) in
            if EnsureUnique opts then
              (case hasUniqueSolution fuel p1 of
                 None \<Rightarrow> None
               | Some True \<Rightarrow> removeCells_loop fuel opts cellsToRemove rest (p1, cellsRemoved + 1)
               | Some False \<Rightarrow>
                   removeCells_loop fuel opts cellsToRemove rest
                     (Board_SetForce p1 (int pos) v, cellsRemoved + 1 - 1))
            else removeCells_loop fuel opts cellsToRemove rest (p1, cellsRemoved + 1))))"

definition removeCells ::
  "nat \<Rightarrow> generator_Options \<Rightarrow> rng \<Rightarrow> Board \<Rightarrow> ((Board \<times> generator_error option) \<times> rng) option"
where
  "removeCells fuel opts r solution =
     (let cellsToRemove = 81 - ClueCount opts in
      case Perm 81 r of
        (positions, r') \<Rightarrow>
          (case removeCells_loop fuel opts cellsToRemove positions (solution, 0) of
             None \<Rightarrow> None
           | Some (puzzle, cellsRemoved) \<Rightarrow>
               if cellsRemoved = cellsToRemove then Some ((puzzle, None), r')
               else Some ((puzzle, Some ErrDiggingFailed), r')))"

text \<open>
  The loop of \<^verbatim>\<open>Generate\<close>. \<open>env\<close> lists, for each iteration that the clock check
  \<^verbatim>\<open>time.Since(start) >= timeout\<close> lets begin, what that iteration reads from the clock; the
  check fails at once when the timeout is not positive, and when the list is exhausted.
\<close>

fun Generate_loop ::
  "nat \<Rightarrow> (int \<Rightarrow> rng) \<Rightarrow> generator_Options \<Rightarrow> attempt list \<Rightarrow> rng \<Rightarrow>
   ((generator_error + Board \<times> Board) \<times> rng) option"
where
  "Generate_loop fuel src opts [] r = Some (Inl ErrGenerationFailed, r)"
| "Generate_loop fuel src opts (a # env) r =
     (case generateSolution fuel src opts a of
        None \<Rightarrow> None
      | Some (Inl e) \<Rightarrow> Generate_loop fuel src opts env r
      | Some (Inr solution) \<Rightarrow>
          (case removeCells fuel opts r solution of
             None \<Rightarrow> None
           | Some ((puzzle, Some e), r') \<Rightarrow> Generate_loop fuel src opts env r'
           | Some ((puzzle, None), r') \<Rightarrow>
               if EnsureUnique opts then
                 (case hasUniqueSolution fuel puzzle of
                    None \<Rightarrow> None
                  | Some False \<Rightarrow> Generate_loop fuel src opts env r'
                  | Some True \<Rightarrow> Some (Inr (puzzle, solution), r'))
               else Some (Inr (puzzle, solution), r')))"

definition Generate ::
  "nat \<Rightarrow> (int \<Rightarrow> rng) \<Rightarrow> Generator \<Rightarrow> attempt list \<Rightarrow>
   ((generator_error + Board \<times> Board) \<times> Generator) option"
where
  "Generate fuel src g env =
     (if ClueCount (options g) < 17 \<or> ClueCount (options g) > 80
      then Some (Inl ErrInvalidClueCount, g)
      else
        (case Generate_loop fuel src (options g)
                (if generator_Options.Timeout (options g) \<le> 0 then [] else env) (rng g) of
           None \<Rightarrow> None
         | Some (res, r') \<Rightarrow> Some (res, g\<lparr>rng := r'\<rparr>)))"

section \<open>Boards behind pointers\<close>

text \<open>
  Where the claim is about aliasing, Boards live in a store and are named by their address;
  \<^verbatim>\<open>Clone\<close> allocates. \<open>None\<close> is the \<^verbatim>\<open>nil\<close> pointer.
\<close>

type_synonym addr = nat
type_synonym heap = "Board list"

definition Board_Clone :: "heap \<Rightarrow> addr option \<Rightarrow> addr option \<times> heap" where
  "Board_Clone h b = (case b of None \<Rightarrow> (None, h) | Some a \<Rightarrow> (Some (length h), h @ [h ! a]))"

record Solver =
  Board :: "addr option"
  options :: solver_Options
  rng :: "rng option"

text \<open>
  \<^verbatim>\<open>solver.New\<close>. The solver's \<^verbatim>\<open>DefaultOptions\<close> is not among the sources: it is the
  parameter \<open>dflt\<close>. \<open>now\<close> is the clock read for the seed of a randomizing solver.
\<close>

definition solver_New ::
  "(int \<Rightarrow> rng) \<Rightarrow> int \<Rightarrow> solver_Options \<Rightarrow> heap \<Rightarrow> addr option \<Rightarrow> solver_Options option \<Rightarrow> Solver \<times> heap"
where
  "solver_New src now dflt h b opts =
     (let options = (case opts of None \<Rightarrow> dflt | Some o1 \<Rightarrow> o1) in
      case Board_Clone h b of
        (c, h') \<Rightarrow>
          (\<lparr>Board = c, options = options,
            rng = (if Randomize options then Some (src now) else None)\<rparr>, h'))"

definition Solver_Solve ::
  "nat \<Rightarrow> nat \<Rightarrow> heap \<Rightarrow> Solver \<Rightarrow> ((solver_error + addr) \<times> Solver \<times> heap) option"
where
  "Solver_Solve fuel polls h s =
     (case Solver.Board s of
        None \<Rightarrow> Some (Inl NilPointerPanic, s, h)
      | Some a \<Rightarrow>
          (case Solve_board fuel (Solver.options s) polls (h ! a, Solver.rng s) of
             None \<Rightarrow> None
           | Some (res, b', r') \<Rightarrow>
               Some ((case res of Inl e \<Rightarrow> Inl e | Inr u \<Rightarrow> Inr a), s\<lparr>Solver.rng := r'\<rparr>, h[a := b'])))"

definition Difficulty ::
  "nat \<Rightarrow> (int \<Rightarrow> rng) \<Rightarrow> int \<Rightarrow> solver_Options \<Rightarrow> heap \<Rightarrow> addr option \<Rightarrow> ((solver_error + int) \<times> heap) option"
where
  "Difficulty fuel src now dflt h b =
     (case solver_New src now dflt h b None of
        (s, h1) \<Rightarrow>
          (case Solver.Board s of
             None \<Rightarrow> Some (Inl NilPointerPanic, h1)
           | Some a \<Rightarrow>
               (case traceDifficulty fuel (h1 ! a) of
                  None \<Rightarrow> None
                | Some (d, b') \<Rightarrow> Some (Inr d, h1[a := b']))))"


section \<open>Measures of the search\<close>

text \<open>
  The number of empty cells of a Board, and one Board being obtained from another by
  filling cells: the array keeps its length, the layout is the same, and no cell was
  emptied on balance.
\<close>

definition zeros :: "Board \<Rightarrow> nat" where
  "zeros b = count_list (cells b) 0"

definition fills :: "Board \<Rightarrow> Board \<Rightarrow> bool" where
  "fills b b' \<longleftrightarrow>
     length (cells b') = length (cells b) \<and> zeros b' \<le> zeros b \<and> layout b' = layout b"


text \<open>
  The Boards the solver is meant for: the cells hold 0..9 and the layout maps the 81
  positions into the regions 0..8 (the arrays have the sizes their Go types fix). On other
  Boards the Go code can stop on an index or a shift out of range, which the functions
  above do not describe.
\<close>

definition board_shape :: "Board \<Rightarrow> bool" where
  "board_shape b \<longleftrightarrow>
     cells_ok (cells b) \<and> layout_ok (layout b) \<and>
     length (rowMasks b) = 9 \<and> length (colMasks b) = 9 \<and> length (regionMasks b) = 9"

text \<open>
  What a caller of \<^verbatim>\<open>solver.New(b, opts).Solve()\<close> receives: the error, or the Board behind
  the returned pointer.
\<close>

definition Solve_result ::
  "nat \<Rightarrow> (int \<Rightarrow> rng) \<Rightarrow> int \<Rightarrow> nat \<Rightarrow> solver_Options \<Rightarrow> heap \<Rightarrow> addr option \<Rightarrow>
   solver_Options option \<Rightarrow> (solver_error + Board) option"
where
  "Solve_result fuel src now polls dflt h b opts =
     (case solver_New src now dflt h b opts of
        (s, h1) \<Rightarrow>
          (case Solver_Solve fuel polls h1 s of
             None \<Rightarrow> None
           | Some (Inl e, s', h') \<Rightarrow> Some (Inl e)
           | Some (Inr a, s', h') \<Rightarrow> Some (Inr (h' ! a))))"

text \<open>
  One Board keeping the filled cells of another: the array has the same length and every
  cell that was filled holds the same digit.
\<close>

definition keeps :: "Board \<Rightarrow> Board \<Rightarrow> bool" where
  "keeps b b' \<longleftrightarrow>
     length (cells b') = length (cells b) \<and> (\<forall>p. cells b ! p \<noteq> 0 \<longrightarrow> cells b' ! p = cells b ! p)"

section \<open>Failing calls of Set\<close>

lemma Board_Set_error_on_empty_cell:
  assumes "Board_Set b pos v = (Some e, b')" and "isValidPosition pos \<longrightarrow> cells b ! nat pos = 0"
  shows "b' = b"
  using assms
  by (auto simp: Board_Set_def Board_Clear_def Let_def validatePosition_def
           split: option.splits if_splits)

text \<open>
  Claim C1 (a failing \<^verbatim>\<open>Set\<close> leaves the Board unchanged, also when the cell already held a
  value). The source clears an occupied cell before it checks the three unit masks, so
  on the board parsed from \<^verbatim>\<open>12\<close> followed by 79 dots the call \<^verbatim>\<open>Set(0, 2)\<close> returns
  \<^verbatim>\<open>IllegalMove\<close> (2 is already in row 0) and leaves cell 0 empty, its digit 1 gone from the
  masks, and \<^verbatim>\<open>emptyCount\<close> one higher.
\<close>

theorem Set_IllegalMove_on_filled_cell_mutates:
  "(case NewFromString (''12'' @ replicate 79 CHR ''.'') None of
      Inl err \<Rightarrow> False
    | Inr b \<Rightarrow>
        (case Board_Set b 0 2 of
           (e, b') \<Rightarrow>
             e = Some (ErrIllegalMove InRow 2 0) \<and>
             cells b ! 0 = 1 \<and> cells b' ! 0 = 0 \<and>
             rowMasks b ! 0 = 3 \<and> rowMasks b' ! 0 = 2 \<and>
             emptyCount b = 79 \<and> emptyCount b' = 80 \<and> b' \<noteq> b))"
  by code_simp


section \<open>Masks and cells\<close>

lemma bit_digit_mask: "1 \<le> v \<Longrightarrow> v \<le> 9 \<Longrightarrow> bit (digit_mask v) k \<longleftrightarrow> k = nat (v - 1)"
  unfolding digit_mask_def by (auto simp: bit_push_bit_iff bit_exp_iff possible_bit_word)

lemma digit_mask_and_eq_0:
  "1 \<le> v \<Longrightarrow> v \<le> 9 \<Longrightarrow> (w AND digit_mask v = 0) \<longleftrightarrow> \<not> bit w (nat (v - 1))"
  using bit_imp_le_length[of w "nat (v - 1)"]
  unfolding bit_eq_iff by (auto simp: bit_and_iff bit_digit_mask)

lemma count_list_update:
  "i < length xs \<Longrightarrow>
   int (count_list (xs[i := y]) a) =
     int (count_list xs a) - (if xs ! i = a then 1 else 0) + (if y = a then 1 else 0)"
proof (induction xs arbitrary: i)
  case Nil
  then show ?case by simp
next
  case (Cons x xs)
  show ?case
  proof (cases i)
    case 0
    then show ?thesis by simp
  next
    case (Suc j)
    with Cons.prems have "j < length xs" by simp
    from Cons.IH[OF this] Suc show ?thesis by (auto split: if_splits)
  qed
qed

lemma ex_unit_update_other:
  "r \<noteq> u p \<Longrightarrow>
   (\<exists>pos<n. u pos = r \<and> cs[p := x] ! pos = y) \<longleftrightarrow> (\<exists>pos<n. u pos = r \<and> cs ! pos = (y::int))"
  by (metis nth_list_update_neq)

lemma unit_exact_set:
  assumes "unit_exact n cs u ms" "p < n" "p < length cs" "cs ! p = 0" "1 \<le> v" "v \<le> 9" "u p < 9"
  shows "unit_exact n (cs[p := v]) u (ms[u p := ms ! u p OR digit_mask v])"
  unfolding unit_exact_def
proof (intro conjI allI impI)
  show "length (ms[u p := ms ! u p OR digit_mask v]) = 9"
    using assms by (simp add: unit_exact_def)
next
  fix r k assume r: "r < (9::nat)"
  have len: "length ms = 9" using assms by (simp add: unit_exact_def)
  have old: "bit (ms ! r) k \<longleftrightarrow> (\<exists>pos<n. u pos = r \<and> cs ! pos = int k + 1)"
    using assms r by (simp add: unit_exact_def)
  show "bit (ms[u p := ms ! u p OR digit_mask v] ! r) k \<longleftrightarrow>
        (\<exists>pos<n. u pos = r \<and> cs[p := v] ! pos = int k + 1)"
  proof (cases "r = u p")
    case True
    have "(\<exists>pos<n. u pos = r \<and> cs[p := v] ! pos = int k + 1) \<longleftrightarrow>
          (\<exists>pos<n. u pos = r \<and> cs ! pos = int k + 1) \<or> v = int k + 1"
    proof
      assume "\<exists>pos<n. u pos = r \<and> cs[p := v] ! pos = int k + 1"
      then obtain pos where pos: "pos < n" "u pos = r" "cs[p := v] ! pos = int k + 1" by blast
      show "(\<exists>pos<n. u pos = r \<and> cs ! pos = int k + 1) \<or> v = int k + 1"
      proof (cases "pos = p")
        case True
        with pos assms show ?thesis by simp
      next
        case False
        with pos show ?thesis by auto
      qed
    next
      assume "(\<exists>pos<n. u pos = r \<and> cs ! pos = int k + 1) \<or> v = int k + 1"
      then show "\<exists>pos<n. u pos = r \<and> cs[p := v] ! pos = int k + 1"
      proof
        assume "\<exists>pos<n. u pos = r \<and> cs ! pos = int k + 1"
        then obtain pos where pos: "pos < n" "u pos = r" "cs ! pos = int k + 1" by blast
        with assms have "pos \<noteq> p" by auto
        with pos show ?thesis by auto
      next
        assume "v = int k + 1"
        with assms True show ?thesis by (intro exI[of _ p]) simp
      qed
    qed
    moreover have "v = int k + 1 \<longleftrightarrow> k = nat (v - 1)" using assms by auto
    ultimately show ?thesis
      using True len r old assms by (simp add: bit_or_iff bit_digit_mask)
  next
    case False
    have "(\<exists>pos<n. u pos = r \<and> cs[p := v] ! pos = int k + 1) \<longleftrightarrow>
          (\<exists>pos<n. u pos = r \<and> cs ! pos = int k + 1)"
      using False by (rule ex_unit_update_other)
    then show ?thesis using False old by simp
  qed
qed

lemma unit_exact_clear:
  assumes "unit_exact 81 cs u ms" "unit_nodup cs u" "p < 81" "p < length cs"
    "cs ! p = v" "1 \<le> v" "v \<le> 9" "u p < 9"
  shows "unit_exact 81 (cs[p := 0]) u (ms[u p := ms ! u p AND NOT (digit_mask v)])"
  unfolding unit_exact_def
proof (intro conjI allI impI)
  show "length (ms[u p := ms ! u p AND NOT (digit_mask v)]) = 9"
    using assms by (simp add: unit_exact_def)
next
  fix r k assume r: "r < (9::nat)"
  have len: "length ms = 9" using assms by (simp add: unit_exact_def)
  have old: "bit (ms ! r) k \<longleftrightarrow> (\<exists>pos<81. u pos = r \<and> cs ! pos = int k + 1)"
    using assms r by (simp add: unit_exact_def)
  show "bit (ms[u p := ms ! u p AND NOT (digit_mask v)] ! r) k \<longleftrightarrow>
        (\<exists>pos<81. u pos = r \<and> cs[p := 0] ! pos = int k + 1)"
  proof (cases "r = u p")
    case True
    have "(\<exists>pos<81. u pos = r \<and> cs[p := 0] ! pos = int k + 1) \<longleftrightarrow>
          (\<exists>pos<81. u pos = r \<and> cs ! pos = int k + 1) \<and> k \<noteq> nat (v - 1)"
    proof
      assume "\<exists>pos<81. u pos = r \<and> cs[p := 0] ! pos = int k + 1"
      then obtain pos where pos: "pos < 81" "u pos = r" "cs[p := 0] ! pos = int k + 1" by blast
      then have ne: "pos \<noteq> p" using assms by (auto simp: nth_list_update split: if_splits)
      then have c: "cs ! pos = int k + 1" using pos by simp
      have "k \<noteq> nat (v - 1)"
      proof
        assume "k = nat (v - 1)"
        then have "cs ! pos = cs ! p" using c assms by simp
        with assms(2) pos ne True assms(3) c show False
          unfolding unit_nodup_def by (metis add.commute assms(5) assms(6) not_one_le_zero)
      qed
      with pos c show "(\<exists>pos<81. u pos = r \<and> cs ! pos = int k + 1) \<and> k \<noteq> nat (v - 1)" by blast
    next
      assume a: "(\<exists>pos<81. u pos = r \<and> cs ! pos = int k + 1) \<and> k \<noteq> nat (v - 1)"
      then obtain pos where pos: "pos < 81" "u pos = r" "cs ! pos = int k + 1" by blast
      with a assms have "pos \<noteq> p" by auto
      with pos show "\<exists>pos<81. u pos = r \<and> cs[p := 0] ! pos = int k + 1" by auto
    qed
    moreover have "bit (ms ! r) k \<Longrightarrow> k < 64"
      using bit_imp_le_length[of "ms ! r" k] by simp
    ultimately show ?thesis
      using True len r old assms by (auto simp: bit_and_iff bit_not_iff bit_digit_mask)
  next
    case False
    have "(\<exists>pos<81. u pos = r \<and> cs[p := 0] ! pos = int k + 1) \<longleftrightarrow>
          (\<exists>pos<81. u pos = r \<and> cs ! pos = int k + 1)"
      using False by (rule ex_unit_update_other)
    then show ?thesis using False old by simp
  qed
qed

lemma posToRow_nth: "p < 81 \<Longrightarrow> posToRow ! p = int (rowOf p)"
  by (simp add: posToRow_def rowOf_def zdiv_int)

lemma posToCol_nth: "p < 81 \<Longrightarrow> posToCol ! p = int (colOf p)"
  by (simp add: posToCol_def colOf_def zmod_int)

lemma rowOf_lt: "p < 81 \<Longrightarrow> rowOf p < 9"
  by (simp add: rowOf_def)

lemma colOf_lt: "colOf p < 9"
  by (simp add: colOf_def)

lemma regionOf_lt: "layout_ok l \<Longrightarrow> p < 81 \<Longrightarrow> regionOf l p < 9"
  unfolding layout_ok_def regionOf_def
  by (metis nat_less_iff nth_mem zle_add1_eq_le numeral_Bit0 numeral_Bit1 one_add_one
      add.commute int_nat_eq of_nat_numeral nat_numeral zless_nat_conj zless_add1_eq)

lemma unit_nodup_clear:
  "unit_nodup cs u \<Longrightarrow> length cs = 81 \<Longrightarrow> unit_nodup (cs[p := 0]) u"
  unfolding unit_nodup_def
proof (intro allI impI)
  fix a b assume len: "length cs = 81" and old: "\<forall>p<81. \<forall>q<81. p \<noteq> q \<longrightarrow> cs ! p \<noteq> 0 \<longrightarrow> cs ! p = cs ! q \<longrightarrow> u p \<noteq> u q"
    and ab: "a < (81::nat)" "b < (81::nat)" "a \<noteq> b"
      "cs[p := 0] ! a \<noteq> 0" "cs[p := 0] ! a = cs[p := 0] ! b"
  have "a \<noteq> p" using ab len by (auto simp: nth_list_update)
  moreover have "b \<noteq> p" using ab len by (auto simp: nth_list_update)
  ultimately have "cs ! a \<noteq> 0" "cs ! a = cs ! b" using ab by simp_all
  with old ab show "u a \<noteq> u b" by blast
qed

lemma unit_exact_free:
  assumes "unit_exact n cs u ms" "1 \<le> v" "v \<le> 9" "r < 9"
  shows "ms ! r AND digit_mask v = 0 \<longleftrightarrow> \<not> (\<exists>pos<n. u pos = r \<and> cs ! pos = v)"
proof -
  have "int (nat (v - 1)) + 1 = v" using assms by simp
  then show ?thesis
    using assms unfolding unit_exact_def by (simp add: digit_mask_and_eq_0)
qed

lemma unit_nodup_set:
  assumes "unit_nodup cs u" "unit_exact 81 cs u ms" "p < 81" "length cs = 81" "cs ! p = 0"
    "1 \<le> v" "v \<le> 9" "u p < 9" "ms ! u p AND digit_mask v = 0"
  shows "unit_nodup (cs[p := v]) u"
proof -
  have free: "\<And>pos. pos < 81 \<Longrightarrow> u pos = u p \<Longrightarrow> cs ! pos \<noteq> v"
    using unit_exact_free[OF assms(2,6,7,8)] assms(9) by blast
  show ?thesis
    unfolding unit_nodup_def
  proof (intro allI impI)
    fix a b assume ab: "a < (81::nat)" "b < (81::nat)" "a \<noteq> b"
      "cs[p := v] ! a \<noteq> 0" "cs[p := v] ! a = cs[p := v] ! b"
    show "u a \<noteq> u b"
    proof (cases "a = p")
      case True
      then have "cs ! b = v" using ab assms by (simp add: nth_list_update)
      with free[of b] ab True show ?thesis by auto
    next
      case False
      note ap = this
      show ?thesis
      proof (cases "b = p")
        case True
        then have "cs ! a = v" using ab assms ap by (simp add: nth_list_update)
        with free[of a] ab True show ?thesis by auto
      next
        case False
        with ap ab assms(1) show ?thesis
          unfolding unit_nodup_def by (simp add: nth_list_update)
      qed
    qed
  qed
qed


lemma Board_Clear_filled:
  assumes "p < 81" "cells b ! p \<noteq> 0"
  shows "Board_Clear b (int p) =
    (None, b\<lparr>cells := (cells b)[p := 0],
      rowMasks := (rowMasks b)[rowOf p := rowMasks b ! rowOf p AND NOT (digit_mask (cells b ! p))],
      colMasks := (colMasks b)[colOf p := colMasks b ! colOf p AND NOT (digit_mask (cells b ! p))],
      regionMasks := (regionMasks b)[regionOf (layout b) p :=
         regionMasks b ! regionOf (layout b) p AND NOT (digit_mask (cells b ! p))],
      emptyCount := emptyCount b + 1\<rparr>)"
  using assms
  by (simp add: Board_Clear_def validatePosition_def isValidPosition_def Let_def
      posToRow_nth posToCol_nth regionOf_def)

lemma Board_Clear_empty:
  "p < 81 \<Longrightarrow> cells b ! p = 0 \<Longrightarrow> Board_Clear b (int p) = (None, b)"
  by (simp add: Board_Clear_def validatePosition_def isValidPosition_def)

lemma Board_Clear_invalid:
  "\<not> isValidPosition pos \<Longrightarrow> Board_Clear b pos = (Some (ErrInvalidPosition pos), b)"
  by (simp add: Board_Clear_def validatePosition_def)

lemma isValidPosition_nat: "isValidPosition pos \<longleftrightarrow> (\<exists>p<81. pos = int p)"
  unfolding isValidPosition_def
  by (metis nat_less_iff of_nat_0_le_iff of_nat_less_iff of_nat_numeral nat_int zero_le_imp_eq_int)

lemma Board_Clear_inv:
  assumes "board_inv b"
  shows "board_inv (snd (Board_Clear b pos))"
proof (cases "isValidPosition pos")
  case False
  then show ?thesis using assms by (simp add: Board_Clear_invalid)
next
  case True
  then obtain p where p: "p < 81" "pos = int p" unfolding isValidPosition_nat by blast
  show ?thesis
  proof (cases "cells b ! p = 0")
    case True
    with p assms show ?thesis by (simp add: Board_Clear_empty)
  next
    case False
    let ?v = "cells b ! p"
    from assms p False have v: "1 \<le> ?v" "?v \<le> 9" and len: "length (cells b) = 81"
      unfolding board_inv_def cells_ok_def by (force, force, blast) 
    have lo: "layout_ok (layout b)" using assms by (simp add: board_inv_def)
    have cnt: "int (count_list ((cells b)[p := 0]) 0) = int (count_list (cells b) 0) + 1"
      using count_list_update[of p "cells b" 0 0] p len False by simp
    have cok: "cells_ok ((cells b)[p := 0])"
      using assms p unfolding board_inv_def cells_ok_def by (auto simp: nth_list_update)
    show ?thesis
      using assms p v len lo cnt cok False unfolding board_inv_def
      by (simp add: Board_Clear_filled unit_exact_clear unit_nodup_clear rowOf_lt colOf_lt regionOf_lt)
  qed
qed

lemma Board_SetForce_eq:
  assumes "p < 81"
  shows "Board_SetForce b (int p) v =
    b\<lparr>cells := (cells b)[p := v],
      rowMasks := (rowMasks b)[rowOf p := rowMasks b ! rowOf p OR digit_mask v],
      colMasks := (colMasks b)[colOf p := colMasks b ! colOf p OR digit_mask v],
      regionMasks := (regionMasks b)[regionOf (layout b) p :=
         regionMasks b ! regionOf (layout b) p OR digit_mask v],
      emptyCount := emptyCount b - 1\<rparr>"
  using assms
  by (simp add: Board_SetForce_def Let_def posToRow_nth posToCol_nth regionOf_def)

lemma Board_Set_invalid_position:
  "\<not> isValidPosition pos \<Longrightarrow> Board_Set b pos v = (Some (ErrInvalidPosition pos), b)"
  by (simp add: Board_Set_def validatePosition_def)

lemma Board_Set_invalid_value:
  "isValidPosition pos \<Longrightarrow> \<not> isValidValue v \<Longrightarrow> Board_Set b pos v = (Some (ErrInvalidValue v), b)"
  by (simp add: Board_Set_def validatePosition_def validateValue_def)

lemma Board_Set_zero:
  "isValidPosition pos \<Longrightarrow> Board_Set b pos 0 = Board_Clear b pos"
  by (simp add: Board_Set_def validatePosition_def validateValue_def isValidValue_def)

lemma Board_Set_on_empty:
  assumes "p < 81" "1 \<le> v" "v \<le> 9" "cells b ! p = 0" "layout_ok (layout b)"
  shows "Board_Set b (int p) v =
    (if rowMasks b ! rowOf p AND digit_mask v \<noteq> 0
       then (Some (ErrIllegalMove InRow v (int (rowOf p))), b)
     else if colMasks b ! colOf p AND digit_mask v \<noteq> 0
       then (Some (ErrIllegalMove InColumn v (int (colOf p))), b)
     else if regionMasks b ! regionOf (layout b) p AND digit_mask v \<noteq> 0
       then (Some (ErrIllegalMove InRegion v (int (regionOf (layout b) p))), b)
     else (None, Board_SetForce b (int p) v))"
proof -
  have "PosToRegion (layout b) ! p \<ge> 0"
    using assms unfolding layout_ok_def by (metis nth_mem)
  then show ?thesis
  using assms
  by (simp add: Board_Set_def validatePosition_def validateValue_def isValidPosition_def
      isValidValue_def Let_def posToRow_nth posToCol_nth regionOf_def Board_SetForce_eq)
qed

lemma Board_Clear_layout: "layout (snd (Board_Clear b pos)) = layout b"
  by (simp add: Board_Clear_def Let_def split: option.splits)

lemma Board_Clear_cell:
  "p < 81 \<Longrightarrow> length (cells b) = 81 \<Longrightarrow> cells (snd (Board_Clear b (int p))) ! p = 0"
  by (cases "cells b ! p = 0") (simp_all add: Board_Clear_filled Board_Clear_empty)

lemma Board_Set_on_filled:
  assumes "p < 81" "1 \<le> v" "v \<le> 9" "cells b ! p \<noteq> 0" "length (cells b) = 81"
  shows "Board_Set b (int p) v = Board_Set (snd (Board_Clear b (int p))) (int p) v"
  using assms Board_Clear_cell[of p b]
  by (simp add: Board_Set_def validatePosition_def validateValue_def isValidPosition_def
      isValidValue_def Board_Clear_layout cong: if_cong)

lemma Board_SetForce_inv:
  assumes "board_inv b" "p < 81" "cells b ! p = 0" "1 \<le> v" "v \<le> 9"
    "rowMasks b ! rowOf p AND digit_mask v = 0"
    "colMasks b ! colOf p AND digit_mask v = 0"
    "regionMasks b ! regionOf (layout b) p AND digit_mask v = 0"
  shows "board_inv (Board_SetForce b (int p) v)"
proof -
  have len: "length (cells b) = 81" using assms unfolding board_inv_def cells_ok_def by blast
  have lo: "layout_ok (layout b)" using assms by (simp add: board_inv_def)
  have cnt: "int (count_list ((cells b)[p := v]) 0) = int (count_list (cells b) 0) - 1"
    using count_list_update[of p "cells b" v 0] assms len by simp
  have cok: "cells_ok ((cells b)[p := v])"
    using assms unfolding board_inv_def cells_ok_def by (auto simp: nth_list_update)
  have nd: "unit_nodup ((cells b)[p := v]) rowOf" "unit_nodup ((cells b)[p := v]) colOf"
    "unit_nodup ((cells b)[p := v]) (regionOf (layout b))"
    using assms len lo unfolding board_inv_def
    by (auto intro: unit_nodup_set[where ms = "rowMasks b"] unit_nodup_set[where ms = "colMasks b"]
        unit_nodup_set[where ms = "regionMasks b"] simp: rowOf_lt colOf_lt regionOf_lt)
  show ?thesis
    using assms len lo cnt cok nd unfolding board_inv_def
    by (simp add: Board_SetForce_eq unit_exact_set rowOf_lt colOf_lt regionOf_lt)
qed

lemma Board_Set_on_empty_inv:
  assumes "board_inv b" "p < 81" "1 \<le> v" "v \<le> 9" "cells b ! p = 0"
  shows "board_inv (snd (Board_Set b (int p) v))"
proof -
  have lo: "layout_ok (layout b)" using assms by (simp add: board_inv_def)
  show ?thesis
    using assms Board_SetForce_inv[OF assms(1,2,5,3,4)]
    by (simp add: Board_Set_on_empty[OF assms(2,3,4,5) lo])
qed

lemma Board_Set_inv:
  assumes "board_inv b"
  shows "board_inv (snd (Board_Set b pos v))"
proof (cases "isValidPosition pos")
  case False
  then show ?thesis using assms by (simp add: Board_Set_invalid_position)
next
  case True
  note vp = this
  then obtain p where p: "p < 81" "pos = int p" unfolding isValidPosition_nat by blast
  have len: "length (cells b) = 81" using assms unfolding board_inv_def cells_ok_def by blast
  show ?thesis
  proof (cases "isValidValue v")
    case False
    with vp show ?thesis using assms by (simp add: Board_Set_invalid_value)
  next
    case True
    show ?thesis
    proof (cases "v = 0")
      case True
      with vp assms show ?thesis by (simp add: Board_Set_zero Board_Clear_inv)
    next
      case False
      with True have v: "1 \<le> v" "v \<le> 9" by (auto simp: isValidValue_def)
      show ?thesis
      proof (cases "cells b ! p = 0")
        case True
        with assms p v show ?thesis by (simp add: Board_Set_on_empty_inv)
      next
        case False
        have "board_inv (snd (Board_Clear b (int p)))" using assms by (rule Board_Clear_inv)
        moreover have "cells (snd (Board_Clear b (int p))) ! p = 0"
          using p len by (simp add: Board_Clear_cell)
        ultimately have "board_inv (snd (Board_Set (snd (Board_Clear b (int p))) (int p) v))"
          using p v by (simp add: Board_Set_on_empty_inv)
        then show ?thesis using p v False len by (simp add: Board_Set_on_filled)
      qed
    qed
  qed
qed

lemma apply_ops_inv: "board_inv b \<Longrightarrow> apply_ops b ops = Some b' \<Longrightarrow> board_inv b'"
proof (induction ops arbitrary: b)
  case Nil
  then show ?case by simp
next
  case (Cons x xs)
  have "board_inv (snd (apply_op b x))"
    using Cons.prems(1) by (cases x) (simp_all add: Board_Set_inv Board_Clear_inv)
  with Cons show ?case by (auto split: prod.splits option.splits)
qed

lemma unit_exact_0: "unit_exact 0 cs u (replicate 9 0)"
  by (simp add: unit_exact_def)

lemma unit_exact_skip:
  assumes "unit_exact n cs u ms" "cs ! n = 0"
  shows "unit_exact (Suc n) cs u ms"
proof -
  have "\<And>r k. (\<exists>pos<Suc n. u pos = r \<and> cs ! pos = int k + 1) \<longleftrightarrow>
               (\<exists>pos<n. u pos = r \<and> cs ! pos = int k + 1)"
    using assms(2) by (metis less_Suc_eq add.commute of_nat_Suc of_nat_0_neq)
  then show ?thesis using assms(1) by (simp add: unit_exact_def)
qed

lemma unit_exact_extend:
  assumes "unit_exact n cs u ms" "cs ! n = v" "1 \<le> v" "v \<le> 9" "u n < 9"
  shows "unit_exact (Suc n) cs u (ms[u n := ms ! u n OR digit_mask v])"
  unfolding unit_exact_def
proof (intro conjI allI impI)
  show "length (ms[u n := ms ! u n OR digit_mask v]) = 9"
    using assms by (simp add: unit_exact_def)
next
  fix r k assume r: "r < (9::nat)"
  have len: "length ms = 9" using assms by (simp add: unit_exact_def)
  have old: "bit (ms ! r) k \<longleftrightarrow> (\<exists>pos<n. u pos = r \<and> cs ! pos = int k + 1)"
    using assms r by (simp add: unit_exact_def)
  have vk: "v = int k + 1 \<longleftrightarrow> k = nat (v - 1)" using assms by auto
  have split: "(\<exists>pos<Suc n. u pos = r \<and> cs ! pos = int k + 1) \<longleftrightarrow>
        (\<exists>pos<n. u pos = r \<and> cs ! pos = int k + 1) \<or> (u n = r \<and> v = int k + 1)"
    using assms(2) by (auto simp: less_Suc_eq)
  show "bit (ms[u n := ms ! u n OR digit_mask v] ! r) k \<longleftrightarrow>
        (\<exists>pos<Suc n. u pos = r \<and> cs ! pos = int k + 1)"
    unfolding split using old len r vk assms(3,4)
    by (cases "r = u n") (auto simp: bit_or_iff bit_digit_mask)
qed

lemma Board_Get_nth: "p < 81 \<Longrightarrow> Board_Get b (int p) = cells b ! p"
  by (simp add: Board_Get_def isValidPosition_def)

lemma IsValid_loop_True:
  assumes "cells_ok (cells b)" "layout_ok (layout b)"
    "unit_nodup (cells b) rowOf" "unit_nodup (cells b) colOf"
    "unit_nodup (cells b) (regionOf (layout b))"
  shows "n \<le> 81 \<Longrightarrow> unit_exact n (cells b) rowOf rc \<Longrightarrow> unit_exact n (cells b) colOf cc \<Longrightarrow>
    unit_exact n (cells b) (regionOf (layout b)) gc \<Longrightarrow> IsValid_loop b [n..<81] (rc, cc, gc)"
proof (induction "81 - n" arbitrary: n rc cc gc)
  case 0
  then show ?case by simp
next
  case (Suc m)
  then have n: "n < 81" by simp
  have upt: "[n..<81] = n # [Suc n..<81]" using n by (simp add: upt_conv_Cons)
  have m: "m = 81 - Suc n" using Suc.hyps(2) by simp
  let ?v = "cells b ! n"
  show ?case
  proof (cases "?v = 0")
    case True
    have "IsValid_loop b [Suc n..<81] (rc, cc, gc)"
      using Suc.hyps(1)[OF m] n Suc.prems True by (simp add: unit_exact_skip)
    then show ?thesis using True n by (simp add: upt Board_Get_nth)
  next
    case False
    with assms(1) n have v: "1 \<le> ?v" "?v \<le> 9" unfolding cells_ok_def by (force, force)
    have nd: "\<And>u. unit_nodup (cells b) u \<Longrightarrow> \<not> (\<exists>pos<n. u pos = u n \<and> cells b ! pos = ?v)"
    proof
      fix u assume nd: "unit_nodup (cells b) u" and "\<exists>pos<n. u pos = u n \<and> cells b ! pos = ?v"
      then obtain pos where pos: "pos < n" "u pos = u n" "cells b ! pos = ?v" by blast
      then have "pos < 81" "pos \<noteq> n" using n by simp_all
      with nd n False pos show False unfolding unit_nodup_def by metis
    qed
    have fr: "rc ! rowOf n AND digit_mask ?v = 0"
      using unit_exact_free[OF Suc.prems(2) v rowOf_lt[OF n]] nd[OF assms(3)] by simp
    have fc: "cc ! colOf n AND digit_mask ?v = 0"
      using unit_exact_free[OF Suc.prems(3) v colOf_lt] nd[OF assms(4)] by simp
    have fg: "gc ! regionOf (layout b) n AND digit_mask ?v = 0"
      using unit_exact_free[OF Suc.prems(4) v regionOf_lt[OF assms(2) n]] nd[OF assms(5)] by simp
    have "IsValid_loop b [Suc n..<81]
       (rc[rowOf n := rc ! rowOf n OR digit_mask ?v],
        cc[colOf n := cc ! colOf n OR digit_mask ?v],
        gc[regionOf (layout b) n := gc ! regionOf (layout b) n OR digit_mask ?v])"
      using Suc.hyps(1)[OF m] n Suc.prems v assms(2)
      by (simp add: unit_exact_extend rowOf_lt colOf_lt regionOf_lt)
    then show ?thesis
      using False n fr fc fg
      by (simp add: upt Board_Get_nth Let_def posToRow_nth posToCol_nth regionOf_def)
  qed
qed

lemma board_inv_IsValid: "board_inv b \<Longrightarrow> Board_IsValid b"
proof -
  assume a: "board_inv b"
  have "IsValid_loop b [0..<81] (replicate 9 0, replicate 9 0, replicate 9 0)"
    using a unfolding board_inv_def
    by (intro IsValid_loop_True unit_exact_0) simp_all
  then show ?thesis by (simp only: Board_IsValid_def)
qed

lemma count_list_replicate_same: "count_list (replicate n x) x = n"
  by (induction n) simp_all

lemma board_New_inv:
  assumes "layout_ok (case lo of None \<Rightarrow> StandardLayout | Some l \<Rightarrow> l)"
  shows "board_inv (board_New lo)"
  using assms
  by (simp add: board_inv_def board_New_def cells_ok_def unit_exact_def unit_nodup_def
      count_list_replicate_same)

lemma NewLayout_standard_map:
  "NewLayout standard_map =
     Inr \<lparr>Type = ''jigsaw'', PosToRegion = standard_map,
          RegionToCells =
           [[0, 1, 2, 9, 10, 11, 18, 19, 20],
            [3, 4, 5, 12, 13, 14, 21, 22, 23],
            [6, 7, 8, 15, 16, 17, 24, 25, 26],
            [27, 28, 29, 36, 37, 38, 45, 46, 47],
            [30, 31, 32, 39, 40, 41, 48, 49, 50],
            [33, 34, 35, 42, 43, 44, 51, 52, 53],
            [54, 55, 56, 63, 64, 65, 72, 73, 74],
            [57, 58, 59, 66, 67, 68, 75, 76, 77],
            [60, 61, 62, 69, 70, 71, 78, 79, 80]]\<rparr>"
  by code_simp

lemma standard_map_ok: "length standard_map = 81 \<and> (\<forall>r \<in> set standard_map. 0 \<le> r \<and> r \<le> 8)"
  by code_simp

lemma StandardLayout_eq [code]:
  "StandardLayout =
     \<lparr>Type = ''standard'',
      PosToRegion =
        [0, 0, 0, 1, 1, 1, 2, 2, 2, 0, 0, 0, 1, 1, 1, 2, 2, 2, 0, 0, 0, 1, 1, 1, 2, 2, 2,
         3, 3, 3, 4, 4, 4, 5, 5, 5, 3, 3, 3, 4, 4, 4, 5, 5, 5, 3, 3, 3, 4, 4, 4, 5, 5, 5,
         6, 6, 6, 7, 7, 7, 8, 8, 8, 6, 6, 6, 7, 7, 7, 8, 8, 8, 6, 6, 6, 7, 7, 7, 8, 8, 8],
      RegionToCells =
        [[0, 1, 2, 9, 10, 11, 18, 19, 20],
         [3, 4, 5, 12, 13, 14, 21, 22, 23],
         [6, 7, 8, 15, 16, 17, 24, 25, 26],
         [27, 28, 29, 36, 37, 38, 45, 46, 47],
         [30, 31, 32, 39, 40, 41, 48, 49, 50],
         [33, 34, 35, 42, 43, 44, 51, 52, 53],
         [54, 55, 56, 63, 64, 65, 72, 73, 74],
         [57, 58, 59, 66, 67, 68, 75, 76, 77],
         [60, 61, 62, 69, 70, 71, 78, 79, 80]]\<rparr>"
  by code_simp

lemma StandardLayout_ok: "layout_ok StandardLayout"
  using standard_map_ok by (simp add: StandardLayout_def NewLayout_standard_map layout_ok_def)

lemma digit_char_cell: "digit_char ch \<Longrightarrow> 1 \<le> cell_of_char ch \<and> cell_of_char ch \<le> 9"
  by (auto simp: digit_char_def cell_of_char_def)

lemma digit_char_valid: "digit_char ch \<Longrightarrow> valid_char ch"
  by (auto simp: digit_char_def valid_char_def)

lemma valid_char_cases: "valid_char ch \<longleftrightarrow> ch = CHR ''.'' \<or> ch = CHR ''0'' \<or> digit_char ch"
  by (auto simp: digit_char_def valid_char_def)

lemma digit_char_not_empty: "digit_char ch \<Longrightarrow> ch \<noteq> CHR ''.'' \<and> ch \<noteq> CHR ''0''"
  by (auto simp: digit_char_def)

lemma cell_of_char_inj:
  assumes "digit_char d" "cell_of_char c = cell_of_char d"
  shows "c = d"
proof -
  have d: "1 \<le> cell_of_char d" "cell_of_char d \<le> 9" "cell_of_char d = of_char d - 48"
    using assms(1) by (auto simp: digit_char_def cell_of_char_def)
  have c0: "c \<noteq> CHR ''.''" "c \<noteq> CHR ''0''"
    using assms(2) d by (auto simp: cell_of_char_def)
  have rng: "(0::int) \<le> of_char c" "(of_char c :: int) < 256"
    by (simp_all add: of_char_def)
  have "(of_char c - 48) mod 256 = (of_char d - 48 :: int)"
    using assms(2) c0 d by (simp add: cell_of_char_def)
  moreover have "((of_char c :: int) - 48) mod 256 = (if (48::int) \<le> of_char c then of_char c - 48 else of_char c + 208)"
  proof (cases "(48::int) \<le> of_char c")
    case True
    then show ?thesis using rng by (simp add: mod_pos_pos_trivial)
  next
    case False
    have "((of_char c :: int) - 48) mod 256 = (of_char c - 48 + 256) mod (256::int)"
      by (simp only: mod_add_self2)
    also have "\<dots> = of_char c + 208" using rng False by (simp add: mod_pos_pos_trivial)
    finally show ?thesis using False by simp
  qed
  ultimately have "(of_char c :: int) = of_char d"
    using rng d by (simp split: if_splits)
  then show ?thesis by simp
qed

lemma prefix_cells_length: "length s = 81 \<Longrightarrow> n \<le> 81 \<Longrightarrow> length (prefix_cells s n) = 81"
  by (simp add: prefix_cells_def)

lemma prefix_cells_nth_lt:
  "length s = 81 \<Longrightarrow> n \<le> 81 \<Longrightarrow> p < n \<Longrightarrow> prefix_cells s n ! p = cell_of_char (s ! p)"
  by (simp add: prefix_cells_def nth_append)

lemma prefix_cells_nth_ge:
  "length s = 81 \<Longrightarrow> n \<le> p \<Longrightarrow> p < 81 \<Longrightarrow> prefix_cells s n ! p = 0"
  by (simp add: prefix_cells_def nth_append)

lemma prefix_cells_Suc:
  assumes "length s = 81" "n < 81"
  shows "prefix_cells s (Suc n) = (prefix_cells s n)[n := cell_of_char (s ! n)]"
proof (rule nth_equalityI)
  show "length (prefix_cells s (Suc n)) = length ((prefix_cells s n)[n := cell_of_char (s ! n)])"
    using assms by (simp add: prefix_cells_length)
next
  fix i assume "i < length (prefix_cells s (Suc n))"
  then have i: "i < 81" using assms by (simp add: prefix_cells_length)
  consider "i < n" | "i = n" | "n < i" by linarith
  then show "prefix_cells s (Suc n) ! i = (prefix_cells s n)[n := cell_of_char (s ! n)] ! i"
  proof cases
    case 1
    then show ?thesis using assms i
      by (simp add: prefix_cells_nth_lt prefix_cells_length)
  next
    case 2
    then show ?thesis using assms i
      by (simp add: prefix_cells_nth_lt prefix_cells_length)
  next
    case 3
    then show ?thesis using assms i
      by (simp add: prefix_cells_nth_ge prefix_cells_length)
  qed
qed

lemma prefix_cells_skip:
  assumes "length s = 81" "n < 81" "cell_of_char (s ! n) = 0"
  shows "prefix_cells s (Suc n) = prefix_cells s n"
proof -
  have "prefix_cells s n ! n = 0" using assms by (simp add: prefix_cells_nth_ge)
  then show ?thesis
    using assms prefix_cells_Suc[OF assms(1,2)]
    by (metis list_update_id)
qed

lemma prefix_cells_full: "length s = 81 \<Longrightarrow> prefix_cells s 81 = map cell_of_char s"
  by (simp add: prefix_cells_def)

lemma prefix_cells_0: "prefix_cells s 0 = replicate 81 0"
  by (simp add: prefix_cells_def)

lemma mask_hit:
  assumes "length s = 81" "n < 81" "cells b = prefix_cells s n" "digit_char (s ! n)"
    "unit_exact 81 (cells b) u ms" "u n < 9"
  shows "ms ! u n AND digit_mask (cell_of_char (s ! n)) \<noteq> 0 \<longleftrightarrow> (\<exists>q<n. u q = u n \<and> s ! q = s ! n)"
proof -
  let ?v = "cell_of_char (s ! n)"
  have v: "1 \<le> ?v" "?v \<le> 9" using assms(4) by (simp_all add: digit_char_cell)
  have "ms ! u n AND digit_mask ?v \<noteq> 0 \<longleftrightarrow> (\<exists>pos<81. u pos = u n \<and> cells b ! pos = ?v)"
    using unit_exact_free[OF assms(5) v assms(6)] by blast
  also have "\<dots> \<longleftrightarrow> (\<exists>q<n. u q = u n \<and> s ! q = s ! n)"
  proof
    assume "\<exists>pos<81. u pos = u n \<and> cells b ! pos = ?v"
    then obtain pos where pos: "pos < 81" "u pos = u n" "cells b ! pos = ?v" by blast
    have "pos < n"
    proof (rule ccontr)
      assume "\<not> pos < n"
      then have "cells b ! pos = 0" using assms pos by (simp add: prefix_cells_nth_ge)
      with pos v show False by simp
    qed
    moreover from this have "cell_of_char (s ! pos) = ?v"
      using pos assms by (simp add: prefix_cells_nth_lt)
    then have "s ! pos = s ! n" using assms(4) by (simp add: cell_of_char_inj)
    ultimately show "\<exists>q<n. u q = u n \<and> s ! q = s ! n" using pos by blast
  next
    assume "\<exists>q<n. u q = u n \<and> s ! q = s ! n"
    then obtain q where q: "q < n" "u q = u n" "s ! q = s ! n" by blast
    then have "cells b ! q = ?v" using assms by (simp add: prefix_cells_nth_lt)
    with q assms(2) show "\<exists>pos<81. u pos = u n \<and> cells b ! pos = ?v"
      by (intro exI[of _ q]) simp
  qed
  finally show ?thesis .
qed

lemma NewFromString_loop_step:
  assumes "length s = 81" "n < 81" "board_inv b" "cells b = prefix_cells s n"
  shows "if \<not> valid_char (s ! n) then NewFromString_loop s [n..<81] b = Inl (ErrInvalidChar (s ! n) n)
     else if dup_before (layout b) s n
       then (\<exists>k i. NewFromString_loop s [n..<81] b =
                     Inl (ErrInvalidBoard n (ErrIllegalMove k (cell_of_char (s ! n)) i)))
     else (\<exists>b'. NewFromString_loop s [n..<81] b = NewFromString_loop s [Suc n..<81] b' \<and>
                 board_inv b' \<and> cells b' = prefix_cells s (Suc n) \<and> layout b' = layout b)"
proof -
  have upt: "[n..<81] = n # [Suc n..<81]" using assms(2) by (simp add: upt_conv_Cons)
  let ?ch = "s ! n"
  let ?v = "cell_of_char ?ch"
  have loop: "NewFromString_loop s [n..<81] b =
     (if ?ch = CHR ''.'' \<or> ?ch = CHR ''0'' then NewFromString_loop s [Suc n..<81] b
      else if digit_char ?ch then
        (case Board_Set b (int n) ?v of
           (Some e, b') \<Rightarrow> Inl (ErrInvalidBoard n e)
         | (None, b') \<Rightarrow> NewFromString_loop s [Suc n..<81] b')
      else Inl (ErrInvalidChar ?ch n))"
    unfolding upt by (simp add: Let_def digit_char_def cell_of_char_def)
  have lo: "layout_ok (layout b)" using assms(3) by (simp add: board_inv_def)
  consider (inv) "\<not> valid_char ?ch" | (emp) "?ch = CHR ''.'' \<or> ?ch = CHR ''0''" | (dig) "digit_char ?ch"
    using valid_char_cases by blast
  then show ?thesis
  proof cases
    case inv
    then have "\<not> digit_char ?ch" "\<not> (?ch = CHR ''.'' \<or> ?ch = CHR ''0'')"
      by (auto simp: valid_char_cases)
    with inv loop show ?thesis by simp
  next
    case emp
    then have nd: "\<not> digit_char ?ch" and vc: "valid_char ?ch" and z: "?v = 0"
      by (auto simp: valid_char_cases digit_char_def cell_of_char_def)
    have "prefix_cells s (Suc n) = prefix_cells s n" using assms z by (simp add: prefix_cells_skip)
    with emp nd vc loop assms show ?thesis
      by (auto simp: dup_before_def)
  next
    case dig
    then have vc: "valid_char ?ch" and ne: "\<not> (?ch = CHR ''.'' \<or> ?ch = CHR ''0'')"
      and v: "1 \<le> ?v" "?v \<le> 9"
      by (auto simp: digit_char_valid digit_char_not_empty digit_char_cell)
    have c0: "cells b ! n = 0" using assms by (simp add: prefix_cells_nth_ge)
    note S = Board_Set_on_empty[OF assms(2) v c0 lo]
    have ue: "unit_exact 81 (cells b) rowOf (rowMasks b)" "unit_exact 81 (cells b) colOf (colMasks b)"
      "unit_exact 81 (cells b) (regionOf (layout b)) (regionMasks b)"
      using assms(3) by (simp_all add: board_inv_def)
    have hr: "rowMasks b ! rowOf n AND digit_mask ?v \<noteq> 0 \<longleftrightarrow> (\<exists>q<n. rowOf q = rowOf n \<and> s ! q = s ! n)"
      by (rule mask_hit[OF assms(1,2,4) dig ue(1) rowOf_lt[OF assms(2)]])
    have hc: "colMasks b ! colOf n AND digit_mask ?v \<noteq> 0 \<longleftrightarrow> (\<exists>q<n. colOf q = colOf n \<and> s ! q = s ! n)"
      by (rule mask_hit[OF assms(1,2,4) dig ue(2) colOf_lt])
    have hg: "regionMasks b ! regionOf (layout b) n AND digit_mask ?v \<noteq> 0 \<longleftrightarrow>
        (\<exists>q<n. regionOf (layout b) q = regionOf (layout b) n \<and> s ! q = s ! n)"
      by (rule mask_hit[OF assms(1,2,4) dig ue(3) regionOf_lt[OF lo assms(2)]])
    have dup: "dup_before (layout b) s n \<longleftrightarrow>
        (rowMasks b ! rowOf n AND digit_mask ?v \<noteq> 0 \<or> colMasks b ! colOf n AND digit_mask ?v \<noteq> 0
         \<or> regionMasks b ! regionOf (layout b) n AND digit_mask ?v \<noteq> 0)"
      unfolding hr hc hg dup_before_def same_unit_def using dig by blast
    show ?thesis
    proof (cases "dup_before (layout b) s n")
      case True
      then have "\<exists>k i. Board_Set b (int n) ?v = (Some (ErrIllegalMove k ?v i), b)"
        unfolding S dup by auto
      then show ?thesis using True vc ne dig loop by auto
    next
      case False
      then have fr: "rowMasks b ! rowOf n AND digit_mask ?v = 0"
        "colMasks b ! colOf n AND digit_mask ?v = 0"
        "regionMasks b ! regionOf (layout b) n AND digit_mask ?v = 0"
        unfolding dup by auto
      let ?b' = "Board_SetForce b (int n) ?v"
      have set: "Board_Set b (int n) ?v = (None, ?b')" unfolding S using fr by simp
      have "board_inv ?b'" using assms(3,2) c0 v fr by (rule Board_SetForce_inv)
      moreover have "cells ?b' = prefix_cells s (Suc n)"
        using assms by (simp add: Board_SetForce_eq prefix_cells_Suc)
      moreover have "layout ?b' = layout b" using assms(2) by (simp add: Board_SetForce_eq)
      moreover have "NewFromString_loop s [n..<81] b = NewFromString_loop s [Suc n..<81] ?b'"
        unfolding loop using ne dig set by simp
      ultimately show ?thesis using False vc by auto
    qed
  qed
qed

lemma NewFromString_loop_result:
  assumes "length s = 81"
  shows "n \<le> 81 \<Longrightarrow> board_inv b \<Longrightarrow> cells b = prefix_cells s n \<Longrightarrow>
     (case NewFromString_loop s [n..<81] b of
        Inr b' \<Rightarrow> board_inv b' \<and> layout b' = layout b \<and> cells b' = map cell_of_char s \<and>
                  (\<forall>p. n \<le> p \<longrightarrow> p < 81 \<longrightarrow> valid_char (s ! p) \<and> \<not> dup_before (layout b) s p)
      | Inl e \<Rightarrow> (\<exists>p. n \<le> p \<and> p < 81 \<and>
                  (\<forall>q. n \<le> q \<longrightarrow> q < p \<longrightarrow> valid_char (s ! q) \<and> \<not> dup_before (layout b) s q) \<and>
                  (if valid_char (s ! p)
                   then dup_before (layout b) s p \<and>
                        (\<exists>k i. e = ErrInvalidBoard p (ErrIllegalMove k (cell_of_char (s ! p)) i))
                   else e = ErrInvalidChar (s ! p) p)))"
proof (induction "81 - n" arbitrary: n b)
  case 0
  then have "n = 81" by simp
  with 0 assms show ?case by (simp add: prefix_cells_full)
next
  case (Suc m)
  then have n: "n < 81" by simp
  have m: "m = 81 - Suc n" using Suc.hyps(2) by simp
  note step = NewFromString_loop_step[OF assms n Suc.prems(2,3)]
  consider (inv) "\<not> valid_char (s ! n)" | (dup) "valid_char (s ! n)" "dup_before (layout b) s n"
    | (ok) "valid_char (s ! n)" "\<not> dup_before (layout b) s n" by blast
  then show ?case
  proof cases
    case inv
    with step have "NewFromString_loop s [n..<81] b = Inl (ErrInvalidChar (s ! n) n)" by simp
    with inv n show ?thesis by (auto intro!: exI[of _ n])
  next
    case dup
    with step obtain k i where "NewFromString_loop s [n..<81] b =
        Inl (ErrInvalidBoard n (ErrIllegalMove k (cell_of_char (s ! n)) i))" by auto
    with dup n show ?thesis by (auto intro!: exI[of _ n])
  next
    case ok
    with step obtain b' where b': "NewFromString_loop s [n..<81] b = NewFromString_loop s [Suc n..<81] b'"
      "board_inv b'" "cells b' = prefix_cells s (Suc n)" "layout b' = layout b" by auto
    have sn: "Suc n \<le> 81" using n by simp
    note IH = Suc.hyps(1)[OF m sn b'(2,3)]
    have first: "\<And>q. n \<le> q \<Longrightarrow> q < Suc n \<Longrightarrow> valid_char (s ! q) \<and> \<not> dup_before (layout b) s q"
      using ok by (metis le_antisym less_Suc_eq_le)
    show ?thesis
    proof (cases "NewFromString_loop s [Suc n..<81] b'")
      case (Inr bb)
      with IH have r: "board_inv bb" "layout bb = layout b'" "cells bb = map cell_of_char s"
        "\<And>p. Suc n \<le> p \<Longrightarrow> p < 81 \<Longrightarrow> valid_char (s ! p) \<and> \<not> dup_before (layout b') s p" by auto
      have "\<And>p. n \<le> p \<Longrightarrow> p < 81 \<Longrightarrow> valid_char (s ! p) \<and> \<not> dup_before (layout b) s p"
      proof -
        fix p assume p: "n \<le> p" "p < 81"
        show "valid_char (s ! p) \<and> \<not> dup_before (layout b) s p"
        proof (cases "p = n")
          case True
          with ok show ?thesis by simp
        next
          case False
          with p have "Suc n \<le> p" by simp
          with r(4)[OF this p(2)] b'(4) show ?thesis by simp
        qed
      qed
      with r b' Inr show ?thesis by simp
    next
      case (Inl e)
      with IH obtain p where p: "Suc n \<le> p" "p < 81"
        "\<And>q. Suc n \<le> q \<Longrightarrow> q < p \<Longrightarrow> valid_char (s ! q) \<and> \<not> dup_before (layout b') s q"
        "if valid_char (s ! p)
           then dup_before (layout b') s p \<and>
                (\<exists>k i. e = ErrInvalidBoard p (ErrIllegalMove k (cell_of_char (s ! p)) i))
           else e = ErrInvalidChar (s ! p) p" by auto
      have "\<And>q. n \<le> q \<Longrightarrow> q < p \<Longrightarrow> valid_char (s ! q) \<and> \<not> dup_before (layout b) s q"
      proof -
        fix q assume q: "n \<le> q" "q < p"
        show "valid_char (s ! q) \<and> \<not> dup_before (layout b) s q"
        proof (cases "q = n")
          case True
          with ok show ?thesis by simp
        next
          case False
          with q have "Suc n \<le> q" by simp
          with p(3)[OF this q(2)] b'(4) show ?thesis by simp
        qed
      qed
      moreover have "n \<le> p" using p(1) by simp
      ultimately show ?thesis using p(2,4) b' Inl by (auto intro!: exI[of _ p])
    qed
  qed
qed

lemma same_unit_sym: "same_unit l p q \<longleftrightarrow> same_unit l q p"
  by (auto simp: same_unit_def)

lemma no_dup_before_iff: "(\<forall>p<81. \<not> dup_before l s p) \<longleftrightarrow> string_consistent l s"
proof
  assume nd: "\<forall>p<81. \<not> dup_before l s p"
  show "string_consistent l s"
    unfolding string_consistent_def
  proof (intro allI impI)
    fix p q assume pq: "p < (81::nat)" "q < (81::nat)" "p \<noteq> q" "digit_char (s ! p)" "s ! p = s ! q"
    show "\<not> same_unit l p q"
    proof
      assume su: "same_unit l p q"
      show False
      proof (cases "q < p")
        case True
        with pq su have "dup_before l s p" unfolding dup_before_def using same_unit_sym by auto
        with nd pq show False by simp
      next
        case False
        with pq have "p < q" by simp
        with pq su have "dup_before l s q" unfolding dup_before_def by auto
        with nd pq show False by simp
      qed
    qed
  qed
next
  assume sc: "string_consistent l s"
  show "\<forall>p<81. \<not> dup_before l s p"
  proof (intro allI impI notI)
    fix p assume p: "p < (81::nat)" and "dup_before l s p"
    then obtain q where q: "digit_char (s ! p)" "q < p" "s ! q = s ! p" "same_unit l q p"
      unfolding dup_before_def by blast
    then have "q < 81" "p \<noteq> q" using p by simp_all
    with sc p q show False unfolding string_consistent_def using same_unit_sym by metis
  qed
qed

lemma board_New_cells: "cells (board_New lo) = prefix_cells s 0"
  by (simp add: board_New_def prefix_cells_0)

lemma NewFromString_result:
  assumes "layout_ok (layout (board_New lo))" "length s = 81"
  shows "case NewFromString s lo of
        Inr b' \<Rightarrow> board_inv b' \<and> layout b' = layout (board_New lo) \<and> cells b' = map cell_of_char s \<and>
                  (\<forall>p<81. valid_char (s ! p)) \<and> string_consistent (layout (board_New lo)) s
      | Inl e \<Rightarrow> (\<exists>p<81. 
                  (\<forall>q<p. valid_char (s ! q) \<and> \<not> dup_before (layout (board_New lo)) s q) \<and>
                  (if valid_char (s ! p)
                   then dup_before (layout (board_New lo)) s p \<and>
                        (\<exists>k i. e = ErrInvalidBoard p (ErrIllegalMove k (cell_of_char (s ! p)) i))
                   else e = ErrInvalidChar (s ! p) p))"
proof -
  have inv: "board_inv (board_New lo)"
    using assms(1) by (intro board_New_inv) (simp add: board_New_def)
  have R0: "(0::nat) \<le> 81" by simp
  note R = NewFromString_loop_result[OF assms(2) R0 inv board_New_cells]
  have N: "NewFromString s lo = NewFromString_loop s [0..<81] (board_New lo)"
    using assms(2) by (simp add: NewFromString_def)
  show ?thesis
  proof (cases "NewFromString_loop s [0..<81] (board_New lo)")
    case (Inl e)
    with R N show ?thesis by auto
  next
    case (Inr b')
    with R have "\<forall>p<81. \<not> dup_before (layout (board_New lo)) s p" by simp
    then have "string_consistent (layout (board_New lo)) s" by (simp only: no_dup_before_iff)
    with R N Inr show ?thesis by simp
  qed
qed

lemma layout_board_New_Some: "layout (board_New (Some l)) = l"
  by (simp add: board_New_def)

lemma layout_board_New_None_ok: "layout_ok (layout (board_New None))"
  by (simp add: board_New_def StandardLayout_ok)

lemma board_New_inv': "layout_ok (layout (board_New lo)) \<Longrightarrow> board_inv (board_New lo)"
  by (intro board_New_inv) (simp add: board_New_def)

lemma create_board_inv:
  assumes "layout_ok (origin_layout origin)" "create_board origin = Some b"
  shows "board_inv b"
proof (cases origin)
  case (FromNew lo)
  with assms show ?thesis by (auto simp: board_New_inv')
next
  case (FromString s lo)
  with assms have lo: "layout_ok (layout (board_New lo))" and N: "NewFromString s lo = Inr b"
    by (auto split: sum.splits)
  then have "length s = 81" by (auto simp: NewFromString_def split: if_splits)
  from NewFromString_result[OF lo this] N show ?thesis by simp
qed

lemma reachable_board_inv:
  assumes "layout_ok (origin_layout origin)" "reachable_board origin ops = Some b"
  shows "board_inv b"
proof -
  from assms(2) obtain b0 where b0: "create_board origin = Some b0" "apply_ops b0 ops = Some b"
    by (auto simp: reachable_board_def split: option.splits)
  from create_board_inv[OF assms(1) b0(1)] b0(2) show ?thesis by (rule apply_ops_inv)
qed

lemma char_of_digits:
  "char_of (49::int) = CHR ''1''" "char_of (50::int) = CHR ''2''" "char_of (51::int) = CHR ''3''"
  "char_of (52::int) = CHR ''4''" "char_of (53::int) = CHR ''5''" "char_of (54::int) = CHR ''6''"
  "char_of (55::int) = CHR ''7''" "char_of (56::int) = CHR ''8''" "char_of (57::int) = CHR ''9''"
  by (simp_all add: char_of_def bit_iff_odd_drop_bit drop_bit_eq_div)

lemma cell_char:
  assumes "0 \<le> c" "c \<le> 9"
  shows "(if c = 0 then CHR ''.'' else char_of (48 + c)) = ''.123456789'' ! nat c"
    and "valid_char (if c = 0 then CHR ''.'' else char_of (48 + c))"
    and "cell_of_char (if c = 0 then CHR ''.'' else char_of (48 + c)) = c"
    and "c \<noteq> 0 \<Longrightarrow> digit_char (if c = 0 then CHR ''.'' else char_of (48 + c))"
proof -
  have "c \<in> {0, 1, 2, 3, 4, 5, 6, 7, 8, 9}" using assms by simp presburger
  then show "(if c = 0 then CHR ''.'' else char_of (48 + c)) = ''.123456789'' ! nat c"
    and "valid_char (if c = 0 then CHR ''.'' else char_of (48 + c))"
    and "cell_of_char (if c = 0 then CHR ''.'' else char_of (48 + c)) = c"
    and "c \<noteq> 0 \<Longrightarrow> digit_char (if c = 0 then CHR ''.'' else char_of (48 + c))"
    by (auto simp: valid_char_def cell_of_char_def digit_char_def char_of_digits)
qed


lemma Board_String_nth:
  "p < length (cells b) \<Longrightarrow>
   Board_String b ! p = (if cells b ! p = 0 then CHR ''.'' else char_of (48 + cells b ! p))"
  by (simp add: Board_String_def)

lemma Board_String_facts:
  assumes "board_inv B" "p < 81"
  shows "Board_String B ! p = ''.123456789'' ! nat (cells B ! p)"
    and "valid_char (Board_String B ! p)"
    and "cell_of_char (Board_String B ! p) = cells B ! p"
    and "cells B ! p \<noteq> 0 \<Longrightarrow> digit_char (Board_String B ! p)"
proof -
  have c: "0 \<le> cells B ! p" "cells B ! p \<le> 9" and len: "p < length (cells B)"
    using assms unfolding board_inv_def cells_ok_def by auto
  show "Board_String B ! p = ''.123456789'' ! nat (cells B ! p)"
    and "valid_char (Board_String B ! p)"
    and "cell_of_char (Board_String B ! p) = cells B ! p"
    and "cells B ! p \<noteq> 0 \<Longrightarrow> digit_char (Board_String B ! p)"
    unfolding Board_String_nth[OF len] using cell_char[OF c] by simp_all
qed

lemma Board_String_no_dup:
  assumes "board_inv B" "p < 81"
  shows "\<not> dup_before (layout B) (Board_String B) p"
proof
  assume "dup_before (layout B) (Board_String B) p"
  then obtain q where q: "digit_char (Board_String B ! p)" "q < p"
    "Board_String B ! q = Board_String B ! p" "same_unit (layout B) q p"
    unfolding dup_before_def by blast
  have q81: "q < 81" using q assms by simp
  have "cell_of_char (Board_String B ! q) = cell_of_char (Board_String B ! p)" using q by simp
  then have eq: "cells B ! q = cells B ! p"
    using Board_String_facts(3)[OF assms(1)] assms(2) q81 by simp
  have "cells B ! p \<noteq> 0"
    using q(1) Board_String_facts(3)[OF assms] digit_char_cell[of "Board_String B ! p"] by auto
  with eq have nz: "cells B ! q \<noteq> 0" by simp
  have "q \<noteq> p" using q by simp
  with assms(1) q81 assms(2) nz eq
  have "rowOf q \<noteq> rowOf p" "colOf q \<noteq> colOf p" "regionOf (layout B) q \<noteq> regionOf (layout B) p"
    unfolding board_inv_def unit_nodup_def by blast+
  with q(4) show False by (simp add: same_unit_def)
qed

lemma Board_String_roundtrip:
  assumes "board_inv B"
  shows "\<exists>b'. NewFromString (Board_String B) (Some (layout B)) = Inr b' \<and> cells b' = cells B
               \<and> layout b' = layout B \<and> board_inv b'"
proof -
  let ?s = "Board_String B"
  have len: "length ?s = 81" using assms by (simp add: Board_String_def board_inv_def cells_ok_def)
  have lo: "layout_ok (layout (board_New (Some (layout B))))"
    using assms by (simp add: layout_board_New_Some board_inv_def)
  note R = NewFromString_result[OF lo len, unfolded layout_board_New_Some]
  show ?thesis
  proof (cases "NewFromString ?s (Some (layout B))")
    case (Inl e)
    with R obtain p where p: "p < 81"
      "if valid_char (?s ! p) then dup_before (layout B) ?s p \<and>
         (\<exists>k i. e = ErrInvalidBoard p (ErrIllegalMove k (cell_of_char (?s ! p)) i))
       else e = ErrInvalidChar (?s ! p) p"
      by auto
    with Board_String_facts(2)[OF assms p(1)] Board_String_no_dup[OF assms p(1)]
    show ?thesis by simp
  next
    case (Inr b')
    with R have b': "board_inv b'" "layout b' = layout B" "cells b' = map cell_of_char ?s"
      by (simp_all add: layout_board_New_Some)
    have "cells b' = cells B"
    proof (rule nth_equalityI)
      show "length (cells b') = length (cells B)"
        using b' len assms by (simp add: board_inv_def cells_ok_def)
    next
      fix i assume "i < length (cells b')"
      then have i: "i < 81" using b' len by simp
      then show "cells b' ! i = cells B ! i"
        using b'(3) len Board_String_facts(3)[OF assms i] by simp
    qed
    with b' Inr show ?thesis by simp
  qed
qed

section \<open>Adjacency on the grid\<close>

lemma suc_div_mod:
  "0 < (q + 1) mod 9 \<Longrightarrow> (q + 1) mod 9 = q mod 9 + 1 \<and> (q + 1) div 9 = q div (9::nat)"
  by presburger

lemma recompose: "p = 9 * (p div 9) + p mod (9::nat)"
  by simp

lemma adjacent_iff:
  "adjacent p q \<longleftrightarrow>
     q + 9 = p \<or> q = p + 9 \<or> (q + 1 = p \<and> 0 < p mod 9) \<or> (q = p + 1 \<and> 0 < q mod 9)"
proof
  assume "adjacent p q"
  then consider
      (r) "p div 9 = q div 9" "p mod 9 + 1 = q mod 9"
    | (l) "p div 9 = q div 9" "q mod 9 + 1 = p mod 9"
    | (d) "p mod 9 = q mod 9" "p div 9 + 1 = q div 9"
    | (u) "p mod 9 = q mod 9" "q div 9 + 1 = p div 9"
    unfolding adjacent_def rowOf_def colOf_def by blast
  then show "q + 9 = p \<or> q = p + 9 \<or> (q + 1 = p \<and> 0 < p mod 9) \<or> (q = p + 1 \<and> 0 < q mod 9)"
  proof cases
    case r
    have "q = 9 * (q div 9) + q mod 9" by (rule recompose)
    then have "q = 9 * (p div 9) + (p mod 9 + 1)" unfolding r(1)[symmetric] r(2)[symmetric] .
    then have "q = (9 * (p div 9) + p mod 9) + 1" by (simp only: add.assoc)
    then have "q = p + 1" by (simp only: mult_div_mod_eq)
    moreover have "0 < q mod 9" using r(2) by linarith
    ultimately show ?thesis by blast
  next
    case l
    have "p = 9 * (p div 9) + p mod 9" by (rule recompose)
    then have "p = 9 * (q div 9) + (q mod 9 + 1)" unfolding l(1) l(2)[symmetric] .
    then have "p = (9 * (q div 9) + q mod 9) + 1" by (simp only: add.assoc)
    then have "q + 1 = p" by (simp only: mult_div_mod_eq)
    moreover have "0 < p mod 9" using l(2) by linarith
    ultimately show ?thesis by blast
  next
    case d
    have "q = 9 * (q div 9) + q mod 9" by (rule recompose)
    then have "q = 9 * (p div 9 + 1) + p mod 9" unfolding d(1) d(2)[symmetric] .
    then have "q = (9 * (p div 9) + p mod 9) + 9" by (simp only: distrib_left mult_1_right add.assoc add.commute add.left_commute)
    then have "q = p + 9" by (simp only: mult_div_mod_eq)
    then show ?thesis by blast
  next
    case u
    have "p = 9 * (p div 9) + p mod 9" by (rule recompose)
    then have "p = 9 * (q div 9 + 1) + q mod 9" unfolding u(1)[symmetric] u(2)[symmetric] .
    then have "p = (9 * (q div 9) + q mod 9) + 9" by (simp only: distrib_left mult_1_right add.assoc add.commute add.left_commute)
    then have "q + 9 = p" by (simp only: mult_div_mod_eq)
    then show ?thesis by blast
  qed
next
  assume "q + 9 = p \<or> q = p + 9 \<or> (q + 1 = p \<and> 0 < p mod 9) \<or> (q = p + 1 \<and> 0 < q mod 9)"
  then show "adjacent p q"
  proof (elim disjE conjE)
    assume a: "q + 9 = p"
    then have "p div 9 = q div 9 + 1" "p mod 9 = q mod 9" by auto
    then show ?thesis by (simp add: adjacent_def rowOf_def colOf_def)
  next
    assume b: "q = p + 9"
    then have "q div 9 = p div 9 + 1" "q mod 9 = p mod 9" by auto
    then show ?thesis by (simp add: adjacent_def rowOf_def colOf_def)
  next
    assume c: "q + 1 = p" "0 < p mod 9"
    with suc_div_mod[of q] have "p mod 9 = q mod 9 + 1" "p div 9 = q div 9" by auto
    then show ?thesis by (simp add: adjacent_def rowOf_def colOf_def)
  next
    assume e: "q = p + 1" "0 < q mod 9"
    with suc_div_mod[of p] have "q mod 9 = p mod 9 + 1" "q div 9 = p div 9" by auto
    then show ?thesis by (simp add: adjacent_def rowOf_def colOf_def)
  qed
qed

lemma go_quo_nonneg: "go_quo (int p) 9 = int (p div 9)"
  by (cases "p = 0") (simp_all add: go_quo_def zdiv_int)

lemma go_rem_nonneg: "go_rem (int p) 9 = int (p mod 9)"
proof -
  have "int p - 9 * int (p div 9) = int (p mod 9)"
    by (metis minus_mult_div_eq_mod of_nat_mod of_nat_numeral zdiv_int)
  then show ?thesis by (simp add: go_rem_def go_quo_nonneg)
qed

lemma neighbors4_nat:
  "neighbors4 (int p) =
     [(int p - 9, 9 \<le> p), (int p + 9, p < 72), (int p - 1, 0 < p mod 9), (int p + 1, p mod 9 < 8)]"
proof -
  have d: "int p = 9 * int (p div 9) + int (p mod 9)"
    by (metis mult_div_mod_eq of_nat_add of_nat_mult of_nat_numeral)
  have r: "0 < p div 9 \<longleftrightarrow> 9 \<le> p" "p div 9 < 8 \<longleftrightarrow> p < 72" by presburger+
  show ?thesis
    unfolding neighbors4_def go_quo_nonneg go_rem_nonneg Let_def
    using d r by (simp add: algebra_simps)
qed

lemma mod9_lt8: "(p::nat) mod 9 < 8 \<longleftrightarrow> 0 < (p + 1) mod 9"
  by presburger

lemma neighbors4_adjacent:
  assumes "p < 81" "q < 81"
  shows "(int q, True) \<in> set (neighbors4 (int p)) \<longleftrightarrow> adjacent p q"
proof -
  have "(int q, True) \<in> set (neighbors4 (int p)) \<longleftrightarrow>
     (int q = int p - 9 \<and> 9 \<le> p) \<or> (int q = int p + 9 \<and> p < 72) \<or>
     (int q = int p - 1 \<and> 0 < p mod 9) \<or> (int q = int p + 1 \<and> p mod 9 < 8)"
    unfolding neighbors4_nat by auto
  also have "\<dots> \<longleftrightarrow> q + 9 = p \<or> q = p + 9 \<or> (q + 1 = p \<and> 0 < p mod 9) \<or> (q = p + 1 \<and> 0 < q mod 9)"
  proof -
    have e1: "(int q = int p - 9 \<and> 9 \<le> p) \<longleftrightarrow> q + 9 = p" by linarith
    have e2: "(int q = int p + 9 \<and> p < 72) \<longleftrightarrow> q = p + 9" using assms(2) by linarith
    have "0 < p mod 9 \<Longrightarrow> 0 < p" by (cases "p = 0") simp_all
    then have e3: "(int q = int p - 1 \<and> 0 < p mod 9) \<longleftrightarrow> (q + 1 = p \<and> 0 < p mod 9)" by linarith
    have "int q = int p + 1 \<longleftrightarrow> q = p + 1" by linarith
    then have e4: "(int q = int p + 1 \<and> p mod 9 < 8) \<longleftrightarrow> (q = p + 1 \<and> 0 < q mod 9)"
      using mod9_lt8[of p] by blast
    show ?thesis unfolding e1 e2 e3 e4 ..
  qed
  finally show ?thesis unfolding adjacent_iff .
qed

lemma neighbors4_in_range:
  assumes "p < 81" "(nb, True) \<in> set (neighbors4 (int p))"
  shows "\<exists>q<81. nb = int q"
proof -
  have "p mod 9 < 8 \<Longrightarrow> p \<noteq> 80" by presburger
  then have "0 \<le> nb \<and> nb < 81"
    using assms unfolding neighbors4_nat by auto
  then have "nat nb < 81 \<and> nb = int (nat nb)" by auto
  then show ?thesis by blast
qed

lemma adjacent_sym: "adjacent p q \<longleftrightarrow> adjacent q p"
  by (auto simp: adjacent_def)

section \<open>The flood fill\<close>

lemma take_Suc_update:
  "n < length xs \<Longrightarrow> take (Suc n) (xs[n := x]) = take n xs @ [x]"
  by (simp add: take_Suc_conv_app_nth)

lemma queued_mono:
  assumes "take (tail st) (queue st') = take (tail st) (queue st)" "tail st \<le> tail st'"
  shows "queued st \<subseteq> queued st'"
proof -
  have "set (take (tail st) (queue st')) \<subseteq> set (take (tail st') (queue st'))"
    using assms(2) by (rule set_take_subset_set_take)
  then show ?thesis unfolding queued_def assms(1) .
qed

lemma bfs_push:
  assumes "region_setup S inRegion" "bfs_inv S p0 st" "q < 81" "q \<in> S" "\<not> visited st ! q"
    "p \<in> S" "(p0, p) \<in> (region_edges S)\<^sup>*" "adjacent p q"
  shows "tail st < 81"
    and "bfs_inv S p0
          (st\<lparr>visited := (visited st)[q := True], visitedCount := visitedCount st + 1,
              queue := (queue st)[tail st := int q], tail := tail st + 1\<rparr>)"
    and "queued (st\<lparr>visited := (visited st)[q := True], visitedCount := visitedCount st + 1,
              queue := (queue st)[tail st := int q], tail := tail st + 1\<rparr>)
         = insert (int q) (queued st)"
proof -
  have len: "length (visited st) = 81" "length (queue st) = 81" "head st \<le> tail st" "tail st \<le> 81"
    and cnt: "visitedCount st = int (tail st)"
    and dist: "distinct (take (tail st) (queue st))"
    and vis: "\<And>p. p < 81 \<Longrightarrow> visited st ! p \<longleftrightarrow> int p \<in> queued st"
    and reach: "\<And>x. x \<in> queued st \<Longrightarrow> \<exists>p. x = int p \<and> p \<in> S \<and> (p0, p) \<in> (region_edges S)\<^sup>*"
    and p0: "int p0 \<in> queued st"
    using assms(2) unfolding bfs_inv_def by auto
  have S81: "\<And>p. p \<in> S \<Longrightarrow> p < 81" using assms(1) unfolding region_setup_def by blast
  have notin: "int q \<notin> queued st" using vis[OF assms(3)] assms(5) by simp
  have sub: "queued st \<subseteq> int ` ({..<81} - {q})"
  proof
    fix x assume x: "x \<in> queued st"
    with reach obtain p' where p': "x = int p'" "p' \<in> S" by blast
    with notin x have "p' \<noteq> q" by auto
    with p' S81 show "x \<in> int ` ({..<81} - {q})" by auto
  qed
  have "card (queued st) = tail st"
    unfolding queued_def using dist len by (simp add: distinct_card)
  moreover have "card (queued st) \<le> card (int ` ({..<81::nat} - {q}))"
    using sub by (intro card_mono) simp_all
  moreover have "card (int ` ({..<81::nat} - {q})) = 80"
    using assms(3) by (simp add: card_image)
  ultimately show t: "tail st < 81" by simp
  let ?st = "st\<lparr>visited := (visited st)[q := True], visitedCount := visitedCount st + 1,
              queue := (queue st)[tail st := int q], tail := tail st + 1\<rparr>"
  have tk: "take (tail ?st) (queue ?st) = take (tail st) (queue st) @ [int q]"
    using t len by (simp add: take_Suc_update)
  then show qd: "queued ?st = insert (int q) (queued st)"
    by (simp add: queued_def)
  have e: "(p, q) \<in> region_edges S" using assms by (simp add: region_edges_def)
  have rq: "(p0, q) \<in> (region_edges S)\<^sup>*" using assms(7) e by (rule rtrancl_into_rtrancl)
  have "distinct (take (tail ?st) (queue ?st))"
    unfolding tk using dist notin by (simp add: queued_def)
  moreover have "\<forall>p<81. visited ?st ! p \<longleftrightarrow> int p \<in> queued ?st"
  proof (intro allI impI)
    fix p' assume p': "p' < (81::nat)"
    show "visited ?st ! p' \<longleftrightarrow> int p' \<in> queued ?st"
      unfolding qd using vis[OF p'] len p' assms(3) by (cases "p' = q") simp_all
  qed
  moreover have "\<forall>x \<in> queued ?st. \<exists>p. x = int p \<and> p \<in> S \<and> (p0, p) \<in> (region_edges S)\<^sup>*"
    unfolding qd using reach rq assms(4) by auto
  moreover have "int p0 \<in> queued ?st" unfolding qd using p0 by simp
  ultimately show "bfs_inv S p0 ?st"
    unfolding bfs_inv_def using len cnt t by simp
qed

lemma visit_neighbors_inv:
  "region_setup S inRegion \<Longrightarrow> p \<in> S \<Longrightarrow> (p0, p) \<in> (region_edges S)\<^sup>* \<Longrightarrow>
   bfs_inv S p0 st \<Longrightarrow>
   (\<forall>x \<in> set nbs. snd x \<longrightarrow> (\<exists>q<81. fst x = int q \<and> adjacent p q)) \<Longrightarrow>
   \<exists>st'. visit_neighbors inRegion nbs st = Some st' \<and> bfs_inv S p0 st' \<and> head st' = head st \<and>
        tail st \<le> tail st' \<and> take (tail st) (queue st') = take (tail st) (queue st) \<and>
        (\<forall>x \<in> set nbs. snd x \<longrightarrow> nat (fst x) \<in> S \<longrightarrow> fst x \<in> queued st')"
proof (induction inRegion nbs st rule: visit_neighbors.induct)
  case (1 inRegion st)
  then show ?case by simp
next
  case (2 inRegion nb ok rest st)
  have rest: "\<forall>x \<in> set rest. snd x \<longrightarrow> (\<exists>q<81. fst x = int q \<and> adjacent p q)"
    using "2.prems"(5) by simp
  show ?case
  proof (cases ok)
    case False
    from "2.IH"(1)[OF False "2.prems"(1,2,3,4) rest] False show ?thesis by simp
  next
    case True
    then obtain q where q: "q < 81" "nb = int q" "adjacent p q" using "2.prems"(5) by auto
    have range: "\<not> (nb < 0 \<or> nb \<ge> 81)" using q by simp
    have inR: "inRegion ! q \<longleftrightarrow> q \<in> S" using "2.prems"(1) q(1) unfolding region_setup_def by blast
    show ?thesis
    proof (cases "inRegion ! nat nb \<and> \<not> visited st ! nat nb")
      case new: True
      then have qS: "q \<in> S" and nv: "\<not> visited st ! q" using q inR by simp_all
      note push = bfs_push[OF "2.prems"(1,4) q(1) qS nv "2.prems"(2,3) q(3)]
      let ?st = "st\<lparr>visited := (visited st)[nat nb := True], visitedCount := visitedCount st + 1,
              queue := (queue st)[tail st := nb], tail := tail st + 1\<rparr>"
      have st_eq: "?st = st\<lparr>visited := (visited st)[q := True], visitedCount := visitedCount st + 1,
              queue := (queue st)[tail st := int q], tail := tail st + 1\<rparr>" using q by simp
      have t: "\<not> tail st \<ge> 81" using push(1) by simp
      from "2.IH"(2)[OF _ range new t "2.prems"(1,2,3) _ rest] True push(2) st_eq
      obtain st' where st': "visit_neighbors inRegion rest ?st = Some st'" "bfs_inv S p0 st'"
        "head st' = head ?st" "tail ?st \<le> tail st'"
        "take (tail ?st) (queue st') = take (tail ?st) (queue ?st)"
        "\<forall>x \<in> set rest. snd x \<longrightarrow> nat (fst x) \<in> S \<longrightarrow> fst x \<in> queued st'"
        by auto
      have len: "length (queue st) = 81" using "2.prems"(4) by (simp add: bfs_inv_def)
      have pre: "take (tail st) (queue st') = take (tail st) (queue st)"
      proof -
        have "take (tail st) (take (tail ?st) (queue st')) = take (tail st) (take (tail ?st) (queue ?st))"
          using st'(5) by simp
        then show ?thesis by (simp add: min_def)
      qed
      have mono: "queued ?st \<subseteq> queued st'" using st'(4,5) by (intro queued_mono) simp_all
      have "nb \<in> queued st'" using push(3) st_eq q mono by auto
      with st' pre True range new t show ?thesis by auto
    next
      case old: False
      from "2.IH"(3)[OF _ range old "2.prems"(1,2,3,4) rest] True
      obtain st' where st': "visit_neighbors inRegion rest st = Some st'" "bfs_inv S p0 st'"
        "head st' = head st" "tail st \<le> tail st'"
        "take (tail st) (queue st') = take (tail st) (queue st)"
        "\<forall>x \<in> set rest. snd x \<longrightarrow> nat (fst x) \<in> S \<longrightarrow> fst x \<in> queued st'"
        by auto
      have mono: "queued st \<subseteq> queued st'" using st'(4,5) by (intro queued_mono) simp_all
      have "nat nb \<in> S \<Longrightarrow> nb \<in> queued st'"
      proof -
        assume "nat nb \<in> S"
        then have "visited st ! q" using old q inR by simp
        then have "int q \<in> queued st" using "2.prems"(4) q(1) unfolding bfs_inv_def by blast
        with mono q show ?thesis by auto
      qed
      with st' True range old show ?thesis by auto
    qed
  qed
qed

lemma bfs_loop_inv:
  "region_setup S inRegion \<Longrightarrow> bfs_inv S p0 st \<Longrightarrow> closed_upto S st (head st) \<Longrightarrow>
   \<exists>st'. bfs_loop inRegion st = Some st' \<and> bfs_inv S p0 st' \<and> closed_upto S st' (tail st')"
proof (induction inRegion st rule: bfs_loop.induct)
  case (1 inRegion st)
  have len: "length (queue st) = 81" "head st \<le> tail st" "tail st \<le> 81"
    using "1.prems"(2) by (simp_all add: bfs_inv_def)
  show ?case
  proof (cases "head st < tail st")
    case False
    then have "head st = tail st" using len by simp
    with False "1.prems" show ?thesis by (subst bfs_loop.simps) simp
  next
    case True
    then have h81: "\<not> head st \<ge> 81" using len by simp
    have "queue st ! head st \<in> queued st"
      unfolding queued_def using True len by (simp add: in_set_conv_nth) (metis nth_take length_take min.absorb2)
    then obtain p where p: "queue st ! head st = int p" "p \<in> S" "(p0, p) \<in> (region_edges S)\<^sup>*"
      using "1.prems"(2) unfolding bfs_inv_def by blast
    have p81: "p < 81" using p(2) "1.prems"(1) unfolding region_setup_def by blast
    let ?st1 = "st\<lparr>head := head st + 1\<rparr>"
    have inv1: "bfs_inv S p0 ?st1"
      using "1.prems"(2) True unfolding bfs_inv_def queued_def by simp
    have nbs: "\<forall>x \<in> set (neighbors4 (int p)). snd x \<longrightarrow> (\<exists>q<81. fst x = int q \<and> adjacent p q)"
    proof (intro ballI impI)
      fix x assume x: "x \<in> set (neighbors4 (int p))" "snd x"
      have "x = (fst x, True)" using x(2) by (cases x) simp
      with x(1) have m: "(fst x, True) \<in> set (neighbors4 (int p))" by simp
      from neighbors4_in_range[OF p81 m] obtain q where q: "q < 81" "fst x = int q" by blast
      with m neighbors4_adjacent[OF p81 q(1)] show "\<exists>q<81. fst x = int q \<and> adjacent p q" by auto
    qed
    from visit_neighbors_inv[OF "1.prems"(1) p(2,3) inv1 nbs]
    obtain st2 where st2: "visit_neighbors inRegion (neighbors4 (int p)) ?st1 = Some st2"
      "bfs_inv S p0 st2" "head st2 = head st + 1" "tail st \<le> tail st2"
      "take (tail st) (queue st2) = take (tail st) (queue st)"
      "\<forall>x \<in> set (neighbors4 (int p)). snd x \<longrightarrow> nat (fst x) \<in> S \<longrightarrow> fst x \<in> queued st2"
      by auto
    have mono: "queued st \<subseteq> queued st2" using st2(4,5) by (intro queued_mono) simp_all
    have same: "\<And>i. i < tail st \<Longrightarrow> queue st2 ! i = queue st ! i"
    proof -
      fix i assume i: "i < tail st"
      have "take (tail st) (queue st2) ! i = take (tail st) (queue st) ! i" using st2(5) by simp
      then show "queue st2 ! i = queue st ! i" using i by simp
    qed
    have closed: "closed_upto S st2 (head st2)"
      unfolding closed_upto_def
    proof (intro allI impI)
      fix i q assume i: "i < head st2" and e: "(nat (queue st2 ! i), q) \<in> region_edges S"
      show "int q \<in> queued st2"
      proof (cases "i < head st")
        case True
        then have "queue st2 ! i = queue st ! i" using same len \<open>head st < tail st\<close> by simp
        with e True "1.prems"(3) have "int q \<in> queued st" unfolding closed_upto_def by simp
        with mono show ?thesis by blast
      next
        case False
        with i st2(3) have "i = head st" by simp
        then have "queue st2 ! i = int p" using same[OF \<open>head st < tail st\<close>] p(1) by simp
        with e have pq: "q \<in> S" "adjacent p q" by (simp_all add: region_edges_def)
        then have q81: "q < 81" using "1.prems"(1) unfolding region_setup_def by blast
        have "(int q, True) \<in> set (neighbors4 (int p))"
          using neighbors4_adjacent[OF p81 q81] pq by simp
        with st2(6) pq show ?thesis by force
      qed
    qed
    from "1.IH"[OF True h81 _ "1.prems"(1) st2(2) closed] st2(1) p(1)
    obtain st' where "bfs_loop inRegion st2 = Some st'" "bfs_inv S p0 st'" "closed_upto S st' (tail st')"
      by auto
    moreover have "bfs_loop inRegion st = bfs_loop inRegion st2"
      using True h81 st2(1) p(1) by (subst bfs_loop.simps) simp
    ultimately show ?thesis by simp
  qed
qed

lemma bfs_final:
  assumes "bfs_inv S p0 st" "closed_upto S st (tail st)"
  shows "queued st = int ` {q. (p0, q) \<in> (region_edges S)\<^sup>*}"
proof
  show "queued st \<subseteq> int ` {q. (p0, q) \<in> (region_edges S)\<^sup>*}"
    using assms(1) unfolding bfs_inv_def by auto
next
  have len: "length (queue st) = 81" "tail st \<le> 81" using assms(1) by (simp_all add: bfs_inv_def)
  have "int q \<in> queued st" if "(p0, q) \<in> (region_edges S)\<^sup>*" for q
    using that
  proof (induction rule: rtrancl_induct)
    case base
    then show ?case using assms(1) by (simp add: bfs_inv_def)
  next
    case (step a b)
    from step.IH obtain i where i: "i < tail st" "queue st ! i = int a"
      unfolding queued_def using len by (auto simp: in_set_conv_nth)
    with step.hyps(2) assms(2) show ?case unfolding closed_upto_def by auto
  qed
  then show "int ` {q. (p0, q) \<in> (region_edges S)\<^sup>*} \<subseteq> queued st" by auto
qed

lemma reach_subset:
  assumes "p0 \<in> S"
  shows "{q. (p0, q) \<in> (region_edges S)\<^sup>*} \<subseteq> S"
proof
  fix q assume "q \<in> {q. (p0, q) \<in> (region_edges S)\<^sup>*}"
  then have "(p0, q) \<in> (region_edges S)\<^sup>*" by simp
  then show "q \<in> S"
    by (induction rule: rtrancl_induct) (use assms in \<open>auto simp: region_edges_def\<close>)
qed

lemma sym_region_edges: "sym (region_edges S)"
  unfolding sym_def region_edges_def using adjacent_sym by auto

lemma contiguous_iff_reach:
  assumes "p0 \<in> S"
  shows "contiguous S \<longleftrightarrow> {q. (p0, q) \<in> (region_edges S)\<^sup>*} = S"
proof
  assume "contiguous S"
  then have "S \<subseteq> {q. (p0, q) \<in> (region_edges S)\<^sup>*}"
    using assms unfolding contiguous_def by blast
  with reach_subset[OF assms] show "{q. (p0, q) \<in> (region_edges S)\<^sup>*} = S" by blast
next
  assume r: "{q. (p0, q) \<in> (region_edges S)\<^sup>*} = S"
  have s: "sym ((region_edges S)\<^sup>*)" using sym_region_edges by (rule sym_rtrancl)
  show "contiguous S"
    unfolding contiguous_def
  proof (intro ballI)
    fix a b assume "a \<in> S" "b \<in> S"
    with r have "(p0, a) \<in> (region_edges S)\<^sup>*" "(p0, b) \<in> (region_edges S)\<^sup>*" by auto
    with s have "(a, p0) \<in> (region_edges S)\<^sup>*" by (meson symD)
    then show "(a, b) \<in> (region_edges S)\<^sup>*"
      using \<open>(p0, b) \<in> (region_edges S)\<^sup>*\<close> by (rule rtrancl_trans)
  qed
qed

lemma bfs_count:
  assumes "bfs_inv S p0 st" "closed_upto S st (tail st)"
  shows "visitedCount st = int (card {q. (p0, q) \<in> (region_edges S)\<^sup>*})"
proof -
  have "card (queued st) = tail st"
    using assms(1) unfolding queued_def bfs_inv_def by (simp add: distinct_card)
  moreover have "card (int ` {q. (p0, q) \<in> (region_edges S)\<^sup>*}) = card {q. (p0, q) \<in> (region_edges S)\<^sup>*}"
    by (intro card_image) simp
  ultimately show ?thesis
    using bfs_final[OF assms] assms(1) by (simp add: bfs_inv_def)
qed

section \<open>Building the inverse table\<close>

lemma region_positions_Suc:
  "region_positions rm (Suc n) r = region_positions rm n r @ (if rm ! n = int r then [n] else [])"
  by (simp add: region_positions_def)

lemma region_positions_0: "region_positions rm 0 r = []"
  by (simp add: region_positions_def)

lemma region_positions_mono:
  "n \<le> m \<Longrightarrow> length (region_positions rm n r) \<le> length (region_positions rm m r)"
proof (induction m)
  case 0
  then show ?case by simp
next
  case (Suc m)
  then show ?case by (cases "n = Suc m") (auto simp: region_positions_Suc)
qed

lemma region_positions_set: "set (region_positions rm 81 r) = region_cells rm r"
  by (auto simp: region_positions_def region_cells_def)

lemma region_positions_distinct: "distinct (region_positions rm n r)"
  by (simp add: region_positions_def)

lemma region_positions_sorted: "sorted (region_positions rm n r)"
  unfolding region_positions_def by (rule sorted_wrt_filter) simp

lemma region_cells_card: "card (region_cells rm r) = length (region_positions rm 81 r)"
  unfolding region_positions_set[symmetric] using region_positions_distinct by (rule distinct_card)

lemma build_inv_0: "build_inv rm 0 (replicate 9 (replicate 9 0), replicate 9 0)"
  by (simp add: build_inv_def region_positions_0)

lemma build_loop_step:
  assumes "n < 81" "build_inv rm n (r2c, counts)"
  shows "if bad_position rm n
         then build_loop rm [n..<81] (r2c, counts) = Inl (bad_position_error rm n)
         else (\<exists>st'. build_loop rm [n..<81] (r2c, counts) = build_loop rm [Suc n..<81] st' \<and>
                     build_inv rm (Suc n) st')"
proof -
  have upt: "[n..<81] = n # [Suc n..<81]" using assms(1) by (simp add: upt_conv_Cons)
  let ?r = "rm ! n"
  have inv: "length r2c = 9" "length counts = 9"
    "\<And>r. r < 9 \<Longrightarrow> length (r2c ! r) = 9 \<and>
               counts ! r = int (length (region_positions rm n r)) \<and> counts ! r \<le> 9 \<and>
               take (nat (counts ! r)) (r2c ! r) = map int (region_positions rm n r)"
    using assms(2) unfolding build_inv_def by auto
  show ?thesis
  proof (cases "?r < 0 \<or> ?r > 8")
    case True
    then show ?thesis unfolding upt by (auto simp: bad_position_def bad_position_error_def)
  next
    case False
    then have r9: "nat ?r < 9" and rr: "int (nat ?r) = ?r" by auto
    note I = inv(3)[OF r9]
    show ?thesis
    proof (cases "counts ! nat ?r \<ge> 9")
      case True
      then have "bad_position rm n" using I by (simp add: bad_position_def)
      moreover have "build_loop rm [n..<81] (r2c, counts) = Inl (RegionTooManyCells ?r)"
        unfolding upt using False True by simp
      ultimately show ?thesis using False by (simp add: bad_position_error_def)
    next
      case lt: False
      then have nb: "\<not> bad_position rm n" using I False by (simp add: bad_position_def)
      let ?c = "nat (counts ! nat ?r)"
      let ?st = "(r2c[nat ?r := (r2c ! nat ?r)[?c := int n]], counts[nat ?r := counts ! nat ?r + 1])"
      have c9: "?c < 9" using lt I by simp
      have step: "build_loop rm [n..<81] (r2c, counts) = build_loop rm [Suc n..<81] ?st"
        unfolding upt using False lt by (simp add: Let_def)
      have "build_inv rm (Suc n) ?st"
        unfolding build_inv_def
      proof (simp only: prod.case, intro conjI allI impI)
        show "length (r2c[nat ?r := (r2c ! nat ?r)[?c := int n]]) = 9" using inv by simp
        show "length (counts[nat ?r := counts ! nat ?r + 1]) = 9" using inv by simp
      next
        fix r assume r: "r < (9::nat)"
        note J = inv(3)[OF r]
        show "length (r2c[nat ?r := (r2c ! nat ?r)[?c := int n]] ! r) = 9"
          using inv r J I by (cases "r = nat ?r") simp_all
        show "counts[nat ?r := counts ! nat ?r + 1] ! r = int (length (region_positions rm (Suc n) r))"
          using inv r J I rr by (cases "r = nat ?r") (auto simp: region_positions_Suc)
        show "counts[nat ?r := counts ! nat ?r + 1] ! r \<le> 9"
          using inv r J I lt by (cases "r = nat ?r") simp_all
        show "take (nat (counts[nat ?r := counts ! nat ?r + 1] ! r))
            (r2c[nat ?r := (r2c ! nat ?r)[?c := int n]] ! r) = map int (region_positions rm (Suc n) r)"
        proof (cases "r = nat ?r")
          case True
          have "nat (counts ! nat ?r + 1) = Suc ?c" using I by simp
          moreover have "take (Suc ?c) ((r2c ! nat ?r)[?c := int n]) = take ?c (r2c ! nat ?r) @ [int n]"
            using c9 I by (simp add: take_Suc_update)
          ultimately show ?thesis using True inv r I rr by (simp add: region_positions_Suc)
        next
          case ne: False
          then have "rm ! n \<noteq> int r" using rr by auto
          with ne inv r J show ?thesis by (simp add: region_positions_Suc)
        qed
      qed
      with step nb show ?thesis by auto
    qed
  qed
qed

lemma build_loop_result:
  "n \<le> 81 \<Longrightarrow> build_inv rm n st \<Longrightarrow>
     (case build_loop rm [n..<81] st of
        Inr st' \<Rightarrow> build_inv rm 81 st' \<and> (\<forall>p. n \<le> p \<longrightarrow> p < 81 \<longrightarrow> \<not> bad_position rm p)
      | Inl e \<Rightarrow> (\<exists>p. n \<le> p \<and> p < 81 \<and> bad_position rm p \<and>
                  (\<forall>q. n \<le> q \<longrightarrow> q < p \<longrightarrow> \<not> bad_position rm q) \<and> e = bad_position_error rm p))"
proof (induction "81 - n" arbitrary: n st)
  case 0
  then have "n = 81" by simp
  with 0 show ?case by (cases st) simp
next
  case (Suc m)
  then have n: "n < 81" by simp
  have m: "m = 81 - Suc n" using Suc.hyps(2) by simp
  obtain r2c counts where st: "st = (r2c, counts)" by (cases st)
  note step = build_loop_step[OF n Suc.prems(2)[unfolded st]]
  show ?case
  proof (cases "bad_position rm n")
    case True
    with step have "build_loop rm [n..<81] st = Inl (bad_position_error rm n)" by (simp add: st)
    with True n show ?thesis by (auto intro!: exI[of _ n])
  next
    case False
    with step obtain st' where st': "build_loop rm [n..<81] st = build_loop rm [Suc n..<81] st'"
      "build_inv rm (Suc n) st'" by (auto simp: st)
    have sn: "Suc n \<le> 81" using n by simp
    note IH = Suc.hyps(1)[OF m sn st'(2)]
    have low: "\<And>q. n \<le> q \<Longrightarrow> \<not> bad_position rm q \<or> Suc n \<le> q"
      using False by (metis le_antisym not_less_eq_eq)
    show ?thesis
    proof (cases "build_loop rm [Suc n..<81] st'")
      case (Inr s2)
      with IH have "build_inv rm 81 s2" "\<And>p. Suc n \<le> p \<Longrightarrow> p < 81 \<Longrightarrow> \<not> bad_position rm p" by auto
      with low st' Inr show ?thesis by auto
    next
      case (Inl e)
      with IH obtain p where p: "Suc n \<le> p" "p < 81" "bad_position rm p"
        "\<And>q. Suc n \<le> q \<Longrightarrow> q < p \<Longrightarrow> \<not> bad_position rm q" "e = bad_position_error rm p" by auto
      have "\<And>q. n \<le> q \<Longrightarrow> q < p \<Longrightarrow> \<not> bad_position rm q" using low p(4) by blast
      moreover have "n \<le> p" using p(1) by simp
      ultimately show ?thesis using p st' Inl by (auto intro!: exI[of _ p])
    qed
  qed
qed

lemma inRegion_fold:
  "\<forall>p \<in> set ps. p < 81 \<Longrightarrow> length a = 81 \<Longrightarrow>
   length (fold (\<lambda>pos a. a[nat pos := True]) (map int ps) a) = 81 \<and>
   (\<forall>p<81. fold (\<lambda>pos a. a[nat pos := True]) (map int ps) a ! p \<longleftrightarrow> a ! p \<or> p \<in> set ps)"
proof (induction ps arbitrary: a)
  case Nil
  then show ?case by simp
next
  case (Cons x xs)
  have "length (a[x := True]) = 81" using Cons.prems by simp
  from Cons.IH[OF _ this] Cons.prems show ?case
    by (auto simp: nth_list_update)
qed

lemma validateContiguous_result:
  assumes "RegionToCells l ! r = map int ps" "ps \<noteq> []" "\<forall>p \<in> set ps. p < 81"
  shows "validateContiguous l r =
     (if int (card {q. (hd ps, q) \<in> (region_edges (set ps))\<^sup>*}) \<noteq> 9
      then Some (RegionNotContiguous r (int (card {q. (hd ps, q) \<in> (region_edges (set ps))\<^sup>*}))
                  (int (hd ps)))
      else None)"
proof -
  let ?S = "set ps"
  let ?p0 = "hd ps"
  let ?inR = "fold (\<lambda>pos a. a[nat pos := True]) (map int ps) (replicate 81 False)"
  let ?st0 = "\<lparr>visited = (replicate 81 False)[?p0 := True],
                 queue = (replicate 81 0)[0 := int ?p0],
                 head = 0, tail = 1, visitedCount = 1\<rparr>"
  have p0: "?p0 \<in> ?S" "?p0 < 81" using assms(2,3) by simp_all
  have c0: "map int ps ! 0 = int ?p0" using assms(2) by (simp add: hd_conv_nth)
  have rsetup: "region_setup ?S ?inR"
    using inRegion_fold[OF assms(3), of "replicate 81 False"] assms(3)
    by (simp add: region_setup_def)
  have q0: "queued ?st0 = {int ?p0}" by (simp add: queued_def take_Suc_conv_app_nth)
  have inv0: "bfs_inv ?S ?p0 ?st0"
    unfolding bfs_inv_def q0 using p0 by (auto simp: nth_list_update take_Suc_conv_app_nth)
  have cl0: "closed_upto ?S ?st0 (head ?st0)" by (simp add: closed_upto_def)
  from bfs_loop_inv[OF rsetup inv0 cl0] obtain st' where
    st': "bfs_loop ?inR ?st0 = Some st'" "bfs_inv ?S ?p0 st'" "closed_upto ?S st' (tail st')" by blast
  note cnt = bfs_count[OF st'(2,3)]
  show ?thesis
    unfolding validateContiguous_def assms(1) Let_def c0 using st'(1) cnt by simp
qed

lemma contiguous_card:
  assumes "distinct ps" "length ps = 9"
  shows "contiguous (set ps) \<longleftrightarrow> card {q. (hd ps, q) \<in> (region_edges (set ps))\<^sup>*} = 9"
proof -
  have ne: "ps \<noteq> []" using assms(2) by auto
  then have p0: "hd ps \<in> set ps" by simp
  have c: "card (set ps) = 9" using assms by (simp add: distinct_card)
  have sub: "{q. (hd ps, q) \<in> (region_edges (set ps))\<^sup>*} \<subseteq> set ps" using p0 by (rule reach_subset)
  have "{q. (hd ps, q) \<in> (region_edges (set ps))\<^sup>*} = set ps \<longleftrightarrow>
        card {q. (hd ps, q) \<in> (region_edges (set ps))\<^sup>*} = 9"
    using sub c by (metis card_subset_eq List.finite_set)
  then show ?thesis using contiguous_iff_reach[OF p0] by simp
qed

lemma count_loop_find:
  "count_loop counts rs =
     (case find (\<lambda>r. counts ! r \<noteq> 9) rs of None \<Rightarrow> None
      | Some r \<Rightarrow> Some (RegionWrongCount r (counts ! r)))"
  by (induction rs) simp_all

lemma Validate_loop_find:
  "Validate_loop l rs =
     (case find (\<lambda>r. validateContiguous l r \<noteq> None) rs of None \<Rightarrow> None
      | Some r \<Rightarrow> validateContiguous l r)"
  by (induction rs) (auto split: option.splits)

lemma find_upt_cases:
  "(case find P [0..<n] of None \<Rightarrow> (\<forall>r<n. \<not> P r)
    | Some r \<Rightarrow> r < n \<and> P r \<and> (\<forall>r'<r. \<not> P r'))"
proof (cases "find P [0..<n]")
  case None
  then have "\<forall>r<n. \<not> P r" by (simp add: find_None_iff)
  with None show ?thesis by simp
next
  case (Some r)
  then obtain i where "i < n" "P ([0..<n] ! i)" "r = [0..<n] ! i" "\<forall>j<i. \<not> P ([0..<n] ! j)"
    unfolding find_Some_iff by auto
  then show ?thesis using Some by auto
qed

section \<open>The result of NewLayout\<close>

lemma validate_region:
  assumes "RegionToCells l ! r = map int (region_positions rm 81 r)"
    "length (region_positions rm 81 r) = 9"
  shows "validateContiguous l r =
     (if contiguous (region_cells rm r) then None
      else Some (RegionNotContiguous r (int (reach_count rm r)) (int (hd (region_positions rm 81 r)))))"
proof -
  let ?ps = "region_positions rm 81 r"
  have ne: "?ps \<noteq> []" using assms(2) by auto
  have lt: "\<forall>p \<in> set ?ps. p < 81" by (simp add: region_positions_def)
  note V = validateContiguous_result[OF assms(1) ne lt]
  note C = contiguous_card[OF region_positions_distinct assms(2)]
  show ?thesis
    unfolding V reach_count_def using C by (simp add: region_positions_set)
qed

lemma NewLayout_result:
  "case NewLayout rm of
     Inr l \<Rightarrow>
       (\<forall>p<81. \<not> bad_position rm p) \<and>
       (\<forall>r<9. length (region_positions rm 81 r) = 9) \<and>
       (\<forall>r<9. contiguous (region_cells rm r)) \<and>
       Type l = ''jigsaw'' \<and> PosToRegion l = rm \<and> length (RegionToCells l) = 9 \<and>
       (\<forall>r<9. RegionToCells l ! r = map int (region_positions rm 81 r))
   | Inl e \<Rightarrow>
       (\<exists>p<81. bad_position rm p \<and> (\<forall>q<p. \<not> bad_position rm q) \<and> e = bad_position_error rm p) \<or>
       ((\<forall>p<81. \<not> bad_position rm p) \<and>
        (\<exists>r<9. length (region_positions rm 81 r) \<noteq> 9 \<and>
               (\<forall>r'<r. length (region_positions rm 81 r') = 9) \<and>
               e = RegionWrongCount r (int (length (region_positions rm 81 r))))) \<or>
       ((\<forall>p<81. \<not> bad_position rm p) \<and>
        (\<forall>r<9. length (region_positions rm 81 r) = 9) \<and>
        (\<exists>r<9. \<not> contiguous (region_cells rm r) \<and> (\<forall>r'<r. contiguous (region_cells rm r')) \<and>
               e = RegionNotContiguous r (int (reach_count rm r))
                     (int (hd (region_positions rm 81 r)))))"
proof -
  let ?l0 = "\<lparr>Type = ''jigsaw'', PosToRegion = rm, RegionToCells = replicate 9 (replicate 9 0)\<rparr>"
  have z: "(0::nat) \<le> 81" by simp
  note B = build_loop_result[OF z build_inv_0, of rm]
  show ?thesis
  proof (cases "build_loop rm [0..<81] (replicate 9 (replicate 9 0), replicate 9 0)")
    case (Inl e)
    with B obtain p where p: "p < 81" "bad_position rm p" "\<forall>q<p. \<not> bad_position rm q"
      "e = bad_position_error rm p" by auto
    have "NewLayout rm = Inl e" using Inl by (simp add: NewLayout_def buildRegionToCells_def)
    with p show ?thesis by auto
  next
    case (Inr st)
    obtain r2c counts where st: "st = (r2c, counts)" by (cases st)
    from B Inr st have nb: "\<forall>p<81. \<not> bad_position rm p" and bi: "build_inv rm 81 (r2c, counts)"
      by auto
    from bi have len: "length r2c = 9"
      and cnt: "\<And>r. r < 9 \<Longrightarrow> counts ! r = int (length (region_positions rm 81 r))"
      and row: "\<And>r. r < 9 \<Longrightarrow> length (r2c ! r) = 9"
      and tk: "\<And>r. r < 9 \<Longrightarrow> take (nat (counts ! r)) (r2c ! r) = map int (region_positions rm 81 r)"
      unfolding build_inv_def by auto
    note F = find_upt_cases[where P = "\<lambda>r. counts ! r \<noteq> 9" and n = 9]
    show ?thesis
    proof (cases "find (\<lambda>r. counts ! r \<noteq> 9) [0..<9]")
      case (Some r)
      with F have r: "r < 9" "counts ! r \<noteq> 9" "\<forall>r'<r. counts ! r' = 9" by auto
      have "NewLayout rm = Inl (RegionWrongCount r (counts ! r))"
        using Inr st Some by (simp add: NewLayout_def buildRegionToCells_def count_loop_find)
      moreover have "length (region_positions rm 81 r) \<noteq> 9" using r cnt by simp
      moreover have "\<forall>r'<r. length (region_positions rm 81 r') = 9"
      proof (intro allI impI)
        fix r' assume "r' < r"
        then have "r' < 9" "counts ! r' = 9" using r by simp_all
        then show "length (region_positions rm 81 r') = 9" using cnt[of r'] by simp
      qed
      ultimately show ?thesis using nb r(1) cnt[OF r(1)] by auto
    next
      case None
      with F have c9: "\<And>r. r < 9 \<Longrightarrow> counts ! r = 9" by auto
      then have l9: "\<forall>r<9. length (region_positions rm 81 r) = 9" using cnt by simp
      let ?l1 = "?l0\<lparr>RegionToCells := r2c\<rparr>"
      have b1: "buildRegionToCells ?l0 = Inr ?l1"
        using Inr st None by (simp add: buildRegionToCells_def count_loop_find)
      have cells: "\<And>r. r < 9 \<Longrightarrow> RegionToCells ?l1 ! r = map int (region_positions rm 81 r)"
        using tk c9 row by simp
      have V: "\<And>r. r < 9 \<Longrightarrow> validateContiguous ?l1 r =
         (if contiguous (region_cells rm r) then None
          else Some (RegionNotContiguous r (int (reach_count rm r)) (int (hd (region_positions rm 81 r)))))"
        using validate_region[OF cells] l9 by blast
      note G = find_upt_cases[where P = "\<lambda>r. validateContiguous ?l1 r \<noteq> None" and n = 9]
      show ?thesis
      proof (cases "find (\<lambda>r. validateContiguous ?l1 r \<noteq> None) [0..<9]")
        case vNone: None
        with G have "\<And>r. r < 9 \<Longrightarrow> validateContiguous ?l1 r = None" by auto
        then have cont: "\<forall>r<9. contiguous (region_cells rm r)"
          using V by (metis option.distinct(1))
        have "NewLayout rm = Inr ?l1"
          using b1 vNone by (simp add: NewLayout_def Validate_def Validate_loop_find)
        with nb l9 cont len cells show ?thesis by simp
      next
        case (Some r)
        with G have r: "r < 9" "validateContiguous ?l1 r \<noteq> None"
          "\<forall>r'<r. validateContiguous ?l1 r' = None" by auto
        have nc: "\<not> contiguous (region_cells rm r)" using r V[OF r(1)] by auto
        have e: "validateContiguous ?l1 r =
            Some (RegionNotContiguous r (int (reach_count rm r)) (int (hd (region_positions rm 81 r))))"
          using V[OF r(1)] nc by simp
        have before: "\<forall>r'<r. contiguous (region_cells rm r')"
        proof (intro allI impI)
          fix r' assume a: "r' < r"
          then have "r' < 9" using r by simp
          from V[OF this] r(3) a show "contiguous (region_cells rm r')"
            by (metis option.distinct(1))
        qed
        have "NewLayout rm =
            Inl (RegionNotContiguous r (int (reach_count rm r)) (int (hd (region_positions rm 81 r))))"
          using b1 Some e by (simp add: NewLayout_def Validate_def Validate_loop_find)
        with nb l9 r(1) nc before show ?thesis by auto
      qed
    qed
  qed
qed

section \<open>Propagation only fills cells\<close>

lemma fills_refl: "fills b b"
  by (simp add: fills_def)

lemma fills_trans: "fills a b \<Longrightarrow> fills b c \<Longrightarrow> fills a c"
  by (auto simp: fills_def)

lemma Board_SetForce_cells: "cells (Board_SetForce b pos v) = (cells b)[nat pos := v]"
  by (simp add: Board_SetForce_def Let_def)

lemma Board_SetForce_layout: "layout (Board_SetForce b pos v) = layout b"
  by (simp add: Board_SetForce_def Let_def)

lemma Board_SetForce_emptyCount: "emptyCount (Board_SetForce b pos v) = emptyCount b - 1"
  by (simp add: Board_SetForce_def Let_def)

lemma count_list_update_le:
  assumes "y \<noteq> a"
  shows "count_list (xs[i := y]) a \<le> count_list xs a"
proof (cases "i < length xs")
  case True
  with count_list_update[OF True, of y a] assms show ?thesis by (simp split: if_splits)
next
  case False
  then show ?thesis by (simp add: list_update_beyond)
qed

lemma fills_SetForce: "v \<noteq> 0 \<Longrightarrow> fills b (Board_SetForce b pos v)"
  by (simp add: fills_def zeros_def Board_SetForce_cells Board_SetForce_layout count_list_update_le)

lemma zeros_SetForce_empty:
  assumes "v \<noteq> 0" "p < length (cells b)" "cells b ! p = 0"
  shows "zeros (Board_SetForce b (int p) v) + 1 = zeros b"
  using count_list_update[OF assms(2), of v 0] assms(1,3)
  by (simp add: zeros_def Board_SetForce_cells)

lemma Board_Clear_cells:
  "cells (snd (Board_Clear b pos)) =
     (if isValidPosition pos \<and> cells b ! nat pos \<noteq> 0 then (cells b)[nat pos := 0] else cells b)"
  by (simp add: Board_Clear_def validatePosition_def Let_def)

lemma zeros_Clear: "zeros (snd (Board_Clear b pos)) \<le> zeros b + 1"
proof (cases "nat pos < length (cells b)")
  case True
  from count_list_update[OF True, of 0 0] show ?thesis
    by (simp add: zeros_def Board_Clear_cells split: if_splits)
next
  case False
  then show ?thesis by (simp add: zeros_def Board_Clear_cells list_update_beyond)
qed

lemma length_Clear: "length (cells (snd (Board_Clear b pos))) = length (cells b)"
  by (simp add: Board_Clear_cells)

lemma Board_Clear_cell0:
  "p < 81 \<Longrightarrow> length (cells b) = 81 \<Longrightarrow> cells (snd (Board_Clear b (int p))) ! p = 0"
  by (simp add: Board_Clear_cells isValidPosition_def)

lemma fills_naked: "fills b (fst (applyNakedSingles_loop ps (b, c)))"
proof (induction ps arbitrary: b c)
  case Nil
  then show ?case by (simp add: fills_refl)
next
  case (Cons p ps)
  have "fills b (fst (applyNakedSingles_loop ps
      (Board_SetForce b (int p) (int (TrailingZeros m) + 1), True)))" for m
    using fills_trans[OF fills_SetForce Cons.IH] by simp
  with Cons.IH[of b c] show ?case by (simp add: Let_def fills_refl)
qed

lemma fills_place_singles:
  "\<forall>v \<in> set vs. v \<noteq> 0 \<Longrightarrow> fills b (fst (place_singles vp vs (b, c)))"
proof (induction vs arbitrary: b c)
  case Nil
  then show ?case by (simp add: fills_refl)
next
  case (Cons v vs)
  then have v: "v \<noteq> 0" and vs: "\<forall>v \<in> set vs. v \<noteq> 0" by simp_all
  have "fills b (fst (place_singles vp vs (Board_SetForce b (vp ! nat v ! 0) v, True)))"
    using fills_trans[OF fills_SetForce[OF v] Cons.IH[OF vs]] by simp
  with Cons.IH[OF vs, of b c] show ?case by simp
qed

lemma fills_findHiddenSingles: "fills b (fst (findHiddenSingles cs b))"
  unfolding findHiddenSingles_def by (rule fills_place_singles) simp

lemma fills_over_units:
  "(\<And>x b. fills b (fst (f x b))) \<Longrightarrow> fills b (fst (over_units f xs (b, c)))"
proof (induction xs arbitrary: b c)
  case Nil
  then show ?case by (simp add: fills_refl)
next
  case (Cons x xs)
  obtain b' c' where f: "f x b = (b', c')" by (cases "f x b")
  then have "fills b b'" using Cons.prems[of b x] by simp
  moreover have "fills b' (fst (over_units f xs (b', c' \<or> c)))" using Cons by blast
  ultimately show ?case using f by (simp add: fills_trans)
qed

lemma fills_applyHiddenSingles: "fills b (fst (applyHiddenSingles b))"
proof -
  have r: "\<And>x b. fills b (fst (findHiddenSinglesInRow x b))"
    by (simp add: findHiddenSinglesInRow_def fills_findHiddenSingles)
  have c: "\<And>x b. fills b (fst (findHiddenSinglesInCol x b))"
    by (simp add: findHiddenSinglesInCol_def fills_findHiddenSingles)
  have g: "\<And>x b. fills b (fst (findHiddenSinglesInRegion x b))"
    by (simp add: findHiddenSinglesInRegion_def fills_findHiddenSingles)
  obtain b1 c1 where 1: "over_units findHiddenSinglesInRow [0..8] (b, False) = (b1, c1)"
    by (cases "over_units findHiddenSinglesInRow [0..8] (b, False)")
  obtain b2 c2 where 2: "over_units findHiddenSinglesInCol [0..8] (b1, c1) = (b2, c2)"
    by (cases "over_units findHiddenSinglesInCol [0..8] (b1, c1)")
  have "fills b b1" using fills_over_units[of findHiddenSinglesInRow, OF r, of b "[0..8]" False] 1 by simp
  moreover have "fills b1 b2" using fills_over_units[of findHiddenSinglesInCol, OF c, of b1 "[0..8]" c1] 2 by simp
  moreover have "fills b2 (fst (over_units findHiddenSinglesInRegion [0..<9] (b2, c2)))"
    using fills_over_units[of findHiddenSinglesInRegion, OF g] by simp
  ultimately show ?thesis
    unfolding applyHiddenSingles_def 1 2 by (meson fills_trans)
qed

lemma fills_applyNakedSingles: "fills b (fst (applyNakedSingles b))"
  by (simp add: applyNakedSingles_def fills_naked)

lemma fills_Propagate_loop: "fills b (snd (PropagateConstraints_loop k b))"
proof (induction k arbitrary: b)
  case 0
  then show ?case by (simp add: fills_refl)
next
  case (Suc k)
  obtain b1 c1 where 1: "applyNakedSingles b = (b1, c1)" by (cases "applyNakedSingles b")
  obtain b2 c2 where 2: "applyHiddenSingles b1 = (b2, c2)" by (cases "applyHiddenSingles b1")
  have "fills b b1" using fills_applyNakedSingles[of b] 1 by simp
  moreover have "fills b1 b2" using fills_applyHiddenSingles[of b1] 2 by simp
  ultimately have f: "fills b b2" by (rule fills_trans)
  with Suc[of b2] show ?case by (auto simp: 1 2 intro: fills_trans)
qed

lemma fills_PropagateConstraints: "fills b (snd (PropagateConstraints b))"
  by (simp add: PropagateConstraints_def fills_Propagate_loop)

section \<open>The search returns\<close>

lemma FindMRVCell_loop_result:
  "FindMRVCell_loop b ps (mp, mc, mcs) = (pos, cands) \<Longrightarrow>
   (pos, cands) = (mp, mcs) \<or>
   (\<exists>p \<in> set ps. pos = int p \<and> Board_Get b (int p) = 0 \<and> cands = Board_GetCandidates b (int p))"
proof (induction ps arbitrary: mp mc mcs)
  case Nil
  then show ?case by simp
next
  case (Cons p ps)
  show ?case
  proof (cases "Board_Get b (int p) = 0")
    case False
    with Cons.prems have "FindMRVCell_loop b ps (mp, mc, mcs) = (pos, cands)" by simp
    from Cons.IH[OF this] show ?thesis by auto
  next
    case True
    let ?c = "Board_GetCandidates b (int p)"
    show ?thesis
    proof (cases "int (length ?c) < mc")
      case False
      with True Cons.prems have "FindMRVCell_loop b ps (mp, mc, mcs) = (pos, cands)"
        by (simp add: Let_def)
      from Cons.IH[OF this] show ?thesis by auto
    next
      case lt: True
      show ?thesis
      proof (cases "int (length ?c) \<le> 1")
        case True
        with lt \<open>Board_Get b (int p) = 0\<close> Cons.prems have "(int p, ?c) = (pos, cands)"
          by (auto simp: Let_def)
        then have "pos = int p" "cands = ?c" by (metis fst_conv, metis snd_conv)
        with \<open>Board_Get b (int p) = 0\<close> show ?thesis by simp
      next
        case False
        with lt \<open>Board_Get b (int p) = 0\<close> Cons.prems
        have "FindMRVCell_loop b ps (int p, int (length ?c), ?c) = (pos, cands)"
          by (simp add: Let_def)
        from Cons.IH[OF this] \<open>Board_Get b (int p) = 0\<close> show ?thesis by auto
      qed
    qed
  qed
qed

lemma FindMRVCell_result:
  assumes "FindMRVCell b = (pos, cands)" "cands \<noteq> []"
  shows "\<exists>p<81. pos = int p \<and> Board_Get b (int p) = 0 \<and> cands = Board_GetCandidates b (int p)"
  using FindMRVCell_loop_result[of b "[0..<81]" "-1" 10 "[]" pos cands] assms
  by (auto simp: FindMRVCell_def)

lemma Board_GetCandidates_range: "v \<in> set (Board_GetCandidates b pos) \<Longrightarrow> 1 \<le> v \<and> v \<le> 9"
  by (auto simp: Board_GetCandidates_def)

lemma mset_swap': "i < length xs \<Longrightarrow> j < length xs \<Longrightarrow> mset (swap i j xs) = mset xs"
  unfolding swap_def by (rule mset_swap)

lemma Intn_lt: "0 < n \<Longrightarrow> fst (Intn n r) < n"
  by (cases r) (simp_all add: Intn_def)

lemma Shuffle_from_mset:
  "i < length xs \<Longrightarrow> mset (fst (Shuffle_from i xs r)) = mset xs"
proof (induction i arbitrary: xs r)
  case 0
  then show ?case by simp
next
  case (Suc i)
  obtain j r' where j: "Intn (Suc i + 1) r = (j, r')" by (cases "Intn (Suc i + 1) r")
  have "j < Suc i + 1" using Intn_lt[of "Suc i + 1" r] j by simp
  then have jl: "j < length xs" using Suc.prems by simp
  have m: "mset (swap (Suc i) j xs) = mset xs" using Suc.prems jl by (rule mset_swap')
  have "i < length (swap (Suc i) j xs)" using Suc.prems by (simp add: swap_def)
  from Suc.IH[OF this] m j show ?case by simp
qed

lemma Shuffle_mset: "mset (fst (Shuffle xs r)) = mset xs"
proof (cases xs)
  case Nil
  then show ?thesis by (simp add: Shuffle_def)
next
  case (Cons a list)
  then show ?thesis unfolding Shuffle_def by (intro Shuffle_from_mset) simp
qed

lemma maybe_shuffle_mset: "mset (fst (maybe_shuffle opts xs r)) = mset xs"
proof (cases r)
  case None
  then show ?thesis by (simp add: maybe_shuffle_def)
next
  case (Some t)
  obtain ys t' where s: "Shuffle xs t = (ys, t')" by (cases "Shuffle xs t")
  have "mset ys = mset xs" using Shuffle_mset[of xs t] s by simp
  with Some s show ?thesis by (simp add: maybe_shuffle_def)
qed

lemma maybe_shuffle_set: "maybe_shuffle opts xs r = (ys, r') \<Longrightarrow> set ys = set xs"
  using maybe_shuffle_mset[of opts xs r] by (metis fst_conv mset_eq_setD)

lemma try_candidates_total:
  assumes rec: "\<And>b r c. length (cells b) = 81 \<Longrightarrow> zeros b < n \<Longrightarrow>
      \<exists>ok b' r' c'. rec (b, r, c) = Some (ok, b', r', c') \<and> fills b b'"
  shows "p < 81 \<Longrightarrow> \<forall>v \<in> set vs. v \<noteq> 0 \<Longrightarrow> length (cells b) = 81 \<Longrightarrow> cells b ! p = 0 \<Longrightarrow>
     zeros b \<le> n \<Longrightarrow>
     \<exists>ok b' r' c'. try_candidates rec (int p) vs (b, r, c) = Some (ok, b', r', c') \<and> fills b b'"
proof (induction vs arbitrary: b r c)
  case Nil
  then show ?case by (auto simp: fills_refl)
next
  case (Cons v vs)
  then have v: "v \<noteq> 0" and vs: "\<forall>v \<in> set vs. v \<noteq> 0" by simp_all
  let ?b1 = "Board_SetForce b (int p) v"
  have z1: "zeros ?b1 + 1 = zeros b"
    using zeros_SetForce_empty[OF v _ Cons.prems(4)] Cons.prems(1,3) by simp
  have l1: "length (cells ?b1) = 81" using Cons.prems(3) by (simp add: Board_SetForce_cells)
  have lay1: "layout ?b1 = layout b" by (simp add: Board_SetForce_layout)
  from z1 Cons.prems(5) have "zeros ?b1 < n" by simp
  from rec[OF l1 this, of r c] obtain ok b2 r2 c2 where
    2: "rec (?b1, r, c) = Some (ok, b2, r2, c2)" "fills ?b1 b2" by blast
  have f2: "fills b b2" using 2(2) z1 l1 lay1 Cons.prems(3) by (simp add: fills_def)
  show ?case
  proof (cases ok)
    case True
    with 2 f2 show ?thesis by auto
  next
    case False
    let ?b3 = "snd (Board_Clear b2 (int p))"
    have l2: "length (cells b2) = 81" using 2(2) l1 by (simp add: fills_def)
    have l3: "length (cells ?b3) = 81" using l2 by (simp add: length_Clear)
    have c3: "cells ?b3 ! p = 0" using Cons.prems(1) l2 by (rule Board_Clear_cell0)
    have "zeros ?b3 \<le> zeros b2 + 1" by (rule zeros_Clear)
    also have "\<dots> \<le> zeros ?b1 + 1" using 2(2) by (simp add: fills_def)
    finally have z3: "zeros ?b3 \<le> zeros b" using z1 by simp
    then have "zeros ?b3 \<le> n" using Cons.prems(5) by simp
    from Cons.IH[OF Cons.prems(1) vs l3 c3 this, of r2 c2] obtain ok' b' r' c' where
      4: "try_candidates rec (int p) vs (?b3, r2, c2) = Some (ok', b', r', c')" "fills ?b3 b'" by blast
    have "layout ?b3 = layout b" using 2(2) lay1 by (simp add: Board_Clear_layout fills_def)
    with 4(2) z3 l3 Cons.prems(3) have "fills b b'" by (simp add: fills_def)
    with 4(1) 2(1) False show ?thesis by simp
  qed
qed

lemma backtrack_total:
  "length (cells b) = 81 \<Longrightarrow> zeros b < fuel \<Longrightarrow>
   \<exists>ok b' r' c'. backtrack fuel opts (b, r, c) = Some (ok, b', r', c') \<and> fills b b'"
proof (induction fuel arbitrary: b r c)
  case 0
  then show ?case by simp
next
  case (Suc fuel)
  obtain d c1 where d: "ctx_Done c = (d, c1)" by (cases "ctx_Done c")
  show ?case
  proof (cases d)
    case True
    with d show ?thesis by (auto simp: fills_refl)
  next
    case False
    obtain e b1 where p: "PropagateConstraints b = (e, b1)" by (cases "PropagateConstraints b")
    have f1: "fills b b1" using fills_PropagateConstraints[of b] p by simp
    then have l1: "length (cells b1) = 81" and z1: "zeros b1 \<le> fuel"
      using Suc.prems by (simp_all add: fills_def)
    show ?thesis
    proof (cases e)
      case (Some err)
      with d False p f1 show ?thesis by auto
    next
      case None
      show ?thesis
      proof (cases "Board_EmptyCount b1 = 0")
        case True
        with d False p None f1 show ?thesis by auto
      next
        case ne: False
        obtain pos cands where m: "FindMRVCell b1 = (pos, cands)" by (cases "FindMRVCell b1")
        show ?thesis
        proof (cases "cands = []")
          case True
          with d False p None ne m f1 show ?thesis by auto
        next
          case nc: False
          from FindMRVCell_result[OF m nc] obtain q where q: "q < 81" "pos = int q"
            "Board_Get b1 (int q) = 0" "cands = Board_GetCandidates b1 (int q)" by blast
          obtain sh r1 where s: "maybe_shuffle opts cands r = (sh, r1)"
            by (cases "maybe_shuffle opts cands r")
          have "set sh = set cands" using s by (rule maybe_shuffle_set)
          then have nz: "\<forall>v \<in> set sh. v \<noteq> 0" using q(4) Board_GetCandidates_range by fastforce
          have c0: "cells b1 ! q = 0" using q(1,3) by (simp add: Board_Get_nth)
          have rec: "\<And>b r c. length (cells b) = 81 \<Longrightarrow> zeros b < fuel \<Longrightarrow>
              \<exists>ok b' r' c'. backtrack fuel opts (b, r, c) = Some (ok, b', r', c') \<and> fills b b'"
            using Suc.IH by blast
          from try_candidates_total[of fuel "backtrack fuel opts", OF rec q(1) nz l1 c0 z1, of r1 c1]
          obtain ok b' r' c' where
            t: "try_candidates (backtrack fuel opts) (int q) sh (b1, r1, c1) = Some (ok, b', r', c')"
            "fills b1 b'" by blast
          have "fills b b'" using f1 t(2) by (rule fills_trans)
          with d False p None ne m nc s t(1) q(2) show ?thesis by simp
        qed
      qed
    qed
  qed
qed


section \<open>Enough fuel; the search on a clone\<close>

lemma try_candidates_mono:
  assumes "\<And>st x. f st = Some x \<Longrightarrow> g st = Some x"
  shows "try_candidates f pos vs st = Some x \<Longrightarrow> try_candidates g pos vs st = Some x"
proof (induction vs arbitrary: st)
  case Nil
  then show ?case by simp
next
  case (Cons v vs)
  obtain b r c where st: "st = (b, r, c)" by (cases st)
  from Cons.prems obtain ok b' r' c' where
    1: "f (Board_SetForce b pos v, r, c) = Some (ok, b', r', c')"
    unfolding st by (auto split: option.splits)
  from assms[OF 1] have 2: "g (Board_SetForce b pos v, r, c) = Some (ok, b', r', c')" .
  show ?case
  proof (cases ok)
    case True
    with Cons.prems 1 2 show ?thesis unfolding st by auto
  next
    case False
    with Cons.prems 1 have
      "try_candidates f pos vs (snd (Board_Clear b' pos), r', c') = Some x"
      unfolding st by simp
    from Cons.IH[OF this] False 2 show ?thesis unfolding st by simp
  qed
qed

lemma backtrack_mono_Suc:
  "backtrack f opts st = Some x \<Longrightarrow> backtrack (Suc f) opts st = Some x"
proof (induction f arbitrary: st x)
  case 0
  then show ?case by simp
next
  case (Suc f)
  obtain b r c where st: "st = (b, r, c)" by (cases st)
  have step: "\<And>st x. backtrack f opts st = Some x \<Longrightarrow> backtrack (Suc f) opts st = Some x"
    by (rule Suc.IH)
  obtain d c1 where d: "ctx_Done c = (d, c1)" by (cases "ctx_Done c")
  obtain e b1 where p: "PropagateConstraints b = (e, b1)" by (cases "PropagateConstraints b")
  obtain pos cands where m: "FindMRVCell b1 = (pos, cands)" by (cases "FindMRVCell b1")
  obtain sh r1 where s: "maybe_shuffle opts cands r = (sh, r1)"
    by (cases "maybe_shuffle opts cands r")
  show ?case
  proof (cases "\<not> d \<and> e = None \<and> Board_EmptyCount b1 \<noteq> 0 \<and> cands \<noteq> []")
    case True
    then have 1: "backtrack (Suc f) opts (b, r, c) =
        try_candidates (backtrack f opts) pos sh (b1, r1, c1)"
      and 2: "backtrack (Suc (Suc f)) opts (b, r, c) =
        try_candidates (backtrack (Suc f) opts) pos sh (b1, r1, c1)"
      using d p m s by simp_all
    have "try_candidates (backtrack (Suc f) opts) pos sh (b1, r1, c1) = Some x"
    proof (rule try_candidates_mono[where f = "backtrack f opts"])
      show "\<And>st x. backtrack f opts st = Some x \<Longrightarrow> backtrack (Suc f) opts st = Some x"
        by (rule step)
      show "try_candidates (backtrack f opts) pos sh (b1, r1, c1) = Some x"
        using Suc.prems[unfolded st 1] .
    qed
    with 2 st show ?thesis by simp
  next
    case False
    then have "backtrack (Suc (Suc f)) opts (b, r, c) = backtrack (Suc f) opts (b, r, c)"
      using d p m s by (cases d; cases e; cases "Board_EmptyCount b1 = 0"; cases "cands = []") simp_all
    with Suc.prems st show ?thesis by simp
  qed
qed

lemma backtrack_mono:
  "f \<le> f' \<Longrightarrow> backtrack f opts st = Some x \<Longrightarrow> backtrack f' opts st = Some x"
  by (induction rule: dec_induct) (simp_all only: backtrack_mono_Suc)

lemma zeros_le: "zeros b \<le> length (cells b)"
  by (simp add: zeros_def count_le_length)

lemma backtrack_returns:
  assumes "length (cells b) = 81" "82 \<le> fuel"
  shows "\<exists>ok b' r' c'. backtrack fuel opts (b, r, c) = Some (ok, b', r', c') \<and> fills b b'"
proof -
  have "zeros b < fuel" using zeros_le[of b] assms by simp
  with assms(1) show ?thesis by (rule backtrack_total)
qed

lemma backtrack_fuel:
  assumes "length (cells b) = 81" "82 \<le> fuel"
  shows "backtrack fuel opts (b, r, c) = backtrack 82 opts (b, r, c)"
proof -
  from backtrack_returns[OF assms(1), of 82 opts r c] obtain x where
    x: "backtrack 82 opts (b, r, c) = Some x" by auto
  from backtrack_mono[OF assms(2) x] x show ?thesis by simp
qed

lemma length_fill_box: "length (cells (fill_box br bc js b)) = length (cells b)"
  by (induction br bc js b rule: fill_box.induct) (simp_all add: Board_SetForce_cells)

lemma length_fill_boxes:
  "length (cells (fst (fill_boxes opts bs nums (b, r)))) = length (cells b)"
  by (induction opts bs nums "(b, r)" arbitrary: b r rule: fill_boxes.induct)
    (simp_all add: length_fill_box split: prod.splits)

lemma length_fillThreeBoxes:
  "length (cells (fst (fillThreeBoxes opts (b, r)))) = length (cells b)"
  by (simp add: fillThreeBoxes_def length_fill_boxes split: prod.splits)

lemma Solve_board_start:
  assumes "length (cells b) = 81"
    and "(if Board_EmptyCount b = 81 \<and> Type (layout b) = ''standard''
          then fillThreeBoxes opts (b, r) else (b, r)) = (b1, r1)"
    and "PropagateConstraints b1 = (e, b2)"
  shows "length (cells b2) = 81"
proof -
  have "length (cells b1) = 81"
    using assms(1,2) length_fillThreeBoxes[of opts b r] by (auto split: if_splits)
  moreover have "fills b1 b2" using fills_PropagateConstraints[of b1] assms(3) by simp
  ultimately show ?thesis by (simp add: fills_def)
qed

lemma Solve_board_returns:
  assumes "length (cells b) = 81" "82 \<le> fuel"
  shows "\<exists>res. Solve_board fuel opts polls (b, r) = Some res"
proof -
  obtain b1 r1 where 1: "(if Board_EmptyCount b = 81 \<and> Type (layout b) = ''standard''
          then fillThreeBoxes opts (b, r) else (b, r)) = (b1, r1)"
    by (cases "(if Board_EmptyCount b = 81 \<and> Type (layout b) = ''standard''
          then fillThreeBoxes opts (b, r) else (b, r))") 
  obtain e b2 where 2: "PropagateConstraints b1 = (e, b2)" by (cases "PropagateConstraints b1")
  have l: "length (cells b2) = 81" using assms(1) 1 2 by (rule Solve_board_start)
  from backtrack_returns[OF l assms(2), of opts r1 "makeContext opts polls"] obtain ok b3 r3 c3
    where 3: "backtrack fuel opts (b2, r1, makeContext opts polls) = Some (ok, b3, r3, c3)" by blast
  show ?thesis unfolding Solve_board_def using 1 2 3
    by (auto simp del: backtrack.simps split: option.splits)
qed

lemma Solve_board_fuel:
  assumes "length (cells b) = 81" "82 \<le> fuel"
  shows "Solve_board fuel opts polls (b, r) = Solve_board 82 opts polls (b, r)"
proof -
  obtain b1 r1 where 1: "(if Board_EmptyCount b = 81 \<and> Type (layout b) = ''standard''
          then fillThreeBoxes opts (b, r) else (b, r)) = (b1, r1)"
    by (cases "(if Board_EmptyCount b = 81 \<and> Type (layout b) = ''standard''
          then fillThreeBoxes opts (b, r) else (b, r))") 
  obtain e b2 where 2: "PropagateConstraints b1 = (e, b2)" by (cases "PropagateConstraints b1")
  have l: "length (cells b2) = 81" using assms(1) 1 2 by (rule Solve_board_start)
  note 3 = backtrack_fuel[OF l assms(2), of opts r1 "makeContext opts polls"]
  show ?thesis unfolding Solve_board_def using 1 2 3
    by (simp del: backtrack.simps split: option.splits)
qed

lemma Solve_board_no_deadline:
  "solver_Options.Timeout opts = 0 \<Longrightarrow>
   Solve_board fuel opts polls st = Solve_board fuel opts 0 st"
  unfolding Solve_board_def makeContext_def by simp

lemma Solve_result_eq:
  "Solve_result fuel src now polls dflt h (Some a) opts =
     (let eff = (case opts of None \<Rightarrow> dflt | Some o1 \<Rightarrow> o1) in
      case Solve_board fuel eff polls (h ! a, if Randomize eff then Some (src now) else None) of
        None \<Rightarrow> None
      | Some (Inl e, b', r') \<Rightarrow> Some (Inl e)
      | Some (Inr u, b', r') \<Rightarrow> Some (Inr b'))"
  by (auto simp: Solve_result_def solver_New_def Board_Clone_def Solver_Solve_def nth_append Let_def
      split: option.splits sum.splits)

lemma board_shape_length: "board_shape b \<Longrightarrow> length (cells b) = 81"
  by (simp add: board_shape_def cells_ok_def)

lemma board_inv_shape: "board_inv b \<Longrightarrow> board_shape b"
  by (simp add: board_shape_def board_inv_def unit_exact_def)

lemma board_shape_New: "board_shape (board_New None)"
  by (intro board_inv_shape board_New_inv' layout_board_New_None_ok)

lemma score_candidates_total:
  assumes rec: "\<And>b. length (cells b) = 81 \<Longrightarrow> zeros b < n \<Longrightarrow>
      \<exists>d b'. f b = Some (d, b') \<and> fills b b'"
  shows "p < 81 \<Longrightarrow> \<forall>v \<in> set vs. v \<noteq> 0 \<Longrightarrow> length (cells b) = 81 \<Longrightarrow> cells b ! p = 0 \<Longrightarrow>
     zeros b \<le> n \<Longrightarrow>
     \<exists>d b'. score_candidates f (int p) vs (sc, b) = Some (d, b') \<and> fills b b'"
proof (induction vs arbitrary: b sc)
  case Nil
  then show ?case by (auto simp: fills_refl)
next
  case (Cons v vs)
  then have v: "v \<noteq> 0" and vs: "\<forall>v \<in> set vs. v \<noteq> 0" by simp_all
  let ?b1 = "Board_SetForce b (int p) v"
  have z1: "zeros ?b1 + 1 = zeros b"
    using zeros_SetForce_empty[OF v _ Cons.prems(4)] Cons.prems(1,3) by simp
  have l1: "length (cells ?b1) = 81" using Cons.prems(3) by (simp add: Board_SetForce_cells)
  have lay1: "layout ?b1 = layout b" by (simp add: Board_SetForce_layout)
  from z1 Cons.prems(5) have "zeros ?b1 < n" by simp
  from rec[OF l1 this] obtain d b2 where 2: "f ?b1 = Some (d, b2)" "fills ?b1 b2" by blast
  let ?b3 = "snd (Board_Clear b2 (int p))"
  have l2: "length (cells b2) = 81" using 2(2) l1 by (simp add: fills_def)
  have l3: "length (cells ?b3) = 81" using l2 by (simp add: length_Clear)
  have c3: "cells ?b3 ! p = 0" using Cons.prems(1) l2 by (rule Board_Clear_cell0)
  have "zeros ?b3 \<le> zeros b2 + 1" by (rule zeros_Clear)
  also have "\<dots> \<le> zeros ?b1 + 1" using 2(2) by (simp add: fills_def)
  finally have z3: "zeros ?b3 \<le> zeros b" using z1 by simp
  then have "zeros ?b3 \<le> n" using Cons.prems(5) by simp
  from Cons.IH[OF Cons.prems(1) vs l3 c3 this, of "sc + (1 + d)"] obtain d' b' where
    4: "score_candidates f (int p) vs (sc + (1 + d), ?b3) = Some (d', b')" "fills ?b3 b'" by blast
  have "layout ?b3 = layout b" using 2(2) lay1 by (simp add: Board_Clear_layout fills_def)
  with 4(2) z3 l3 Cons.prems(3) have "fills b b'" by (simp add: fills_def)
  with 4(1) 2(1) show ?case by simp
qed

lemma traceDifficulty_total:
  "length (cells b) = 81 \<Longrightarrow> zeros b < fuel \<Longrightarrow>
   \<exists>d b'. traceDifficulty fuel b = Some (d, b') \<and> fills b b'"
proof (induction fuel arbitrary: b)
  case 0
  then show ?case by simp
next
  case (Suc fuel)
  show ?case
  proof (cases "Board_EmptyCount b = 0")
    case True
    then show ?thesis by (auto simp: fills_refl)
  next
    case ne: False
    obtain pos cands where m: "FindMRVCell b = (pos, cands)" by (cases "FindMRVCell b")
    show ?thesis
    proof (cases "cands = []")
      case True
      with ne m show ?thesis by (auto simp: fills_refl)
    next
      case nc: False
      from FindMRVCell_result[OF m nc] obtain q where q: "q < 81" "pos = int q"
        "Board_Get b (int q) = 0" "cands = Board_GetCandidates b (int q)" by blast
      have nz: "\<forall>v \<in> set cands. v \<noteq> 0" using q(4) Board_GetCandidates_range by fastforce
      have c0: "cells b ! q = 0" using q(1,3) by (simp add: Board_Get_nth)
      have z: "zeros b \<le> fuel" using Suc.prems(2) by simp
      have rec: "\<And>b. length (cells b) = 81 \<Longrightarrow> zeros b < fuel \<Longrightarrow>
          \<exists>d b'. traceDifficulty fuel b = Some (d, b') \<and> fills b b'"
        using Suc.IH by blast
      from score_candidates_total[where f = "traceDifficulty fuel" and n = fuel,
          OF rec q(1) nz Suc.prems(1) c0 z, of 0]
      obtain d b' where
        t: "score_candidates (traceDifficulty fuel) (int q) cands (0, b) = Some (d, b')"
        "fills b b'" by blast
      with ne m nc q(2) show ?thesis by simp
    qed
  qed
qed

lemma traceDifficulty_returns:
  assumes "length (cells b) = 81" "82 \<le> fuel"
  shows "\<exists>d b'. traceDifficulty fuel b = Some (d, b')"
proof -
  have "zeros b < fuel" using zeros_le[of b] assms by simp
  with assms(1) traceDifficulty_total[of b fuel] show ?thesis by blast
qed


section \<open>The generator returns, with the clue count asked for\<close>

lemma try_candidates_True:
  assumes "\<And>st b' r' c'. f st = Some (True, b', r', c') \<Longrightarrow> Board_EmptyCount b' = 0"
  shows "try_candidates f pos vs st = Some (True, b', r', c') \<Longrightarrow> Board_EmptyCount b' = 0"
proof (induction vs arbitrary: st)
  case Nil
  then show ?case by simp
next
  case (Cons v vs)
  obtain b r c where st: "st = (b, r, c)" by (cases st)
  from Cons.prems obtain ok b2 r2 c2 where
    1: "f (Board_SetForce b pos v, r, c) = Some (ok, b2, r2, c2)"
    unfolding st by (auto split: option.splits)
  show ?case
  proof (cases ok)
    case True
    with Cons.prems 1 have eq: "b2 = b'" unfolding st by simp
    from 1 True have "f (Board_SetForce b pos v, r, c) = Some (True, b2, r2, c2)" by simp
    from assms[OF this] eq show ?thesis by simp
  next
    case False
    with Cons.prems 1 have
      "try_candidates f pos vs (snd (Board_Clear b2 pos), r2, c2) = Some (True, b', r', c')"
      unfolding st by simp
    then show ?thesis by (rule Cons.IH)
  qed
qed

lemma backtrack_True:
  "backtrack fuel opts st = Some (True, b', r', c') \<Longrightarrow> Board_EmptyCount b' = 0"
proof (induction fuel arbitrary: st b' r' c')
  case 0
  then show ?case by simp
next
  case (Suc fuel)
  obtain b r c where st: "st = (b, r, c)" by (cases st)
  obtain d c1 where d: "ctx_Done c = (d, c1)" by (cases "ctx_Done c")
  obtain e b1 where p: "PropagateConstraints b = (e, b1)" by (cases "PropagateConstraints b")
  obtain pos cands where m: "FindMRVCell b1 = (pos, cands)" by (cases "FindMRVCell b1")
  obtain sh r1 where s: "maybe_shuffle opts cands r = (sh, r1)"
    by (cases "maybe_shuffle opts cands r")
  show ?case
  proof (cases "\<not> d \<and> e = None \<and> Board_EmptyCount b1 \<noteq> 0 \<and> cands \<noteq> []")
    case True
    then have "try_candidates (backtrack fuel opts) pos sh (b1, r1, c1) = Some (True, b', r', c')"
      using Suc.prems d p m s unfolding st by simp
    then show ?thesis
    proof (rule try_candidates_True[rotated])
      show "\<And>st b' r' c'. backtrack fuel opts st = Some (True, b', r', c') \<Longrightarrow> Board_EmptyCount b' = 0"
        by (rule Suc.IH)
    qed
  next
    case False
    then show ?thesis
      using Suc.prems d p m s unfolding st
      by (cases d; cases e; cases "Board_EmptyCount b1 = 0"; cases "cands = []") auto
  qed
qed

lemma Solve_board_Inr:
  assumes "Solve_board fuel opts polls (b, r) = Some (Inr u, b', r')"
  shows "Board_EmptyCount b' = 0"
proof -
  obtain b1 r1 where 1: "(if Board_EmptyCount b = 81 \<and> Type (layout b) = ''standard''
          then fillThreeBoxes opts (b, r) else (b, r)) = (b1, r1)"
    by (cases "(if Board_EmptyCount b = 81 \<and> Type (layout b) = ''standard''
          then fillThreeBoxes opts (b, r) else (b, r))") 
  obtain e b2 where 2: "PropagateConstraints b1 = (e, b2)" by (cases "PropagateConstraints b1")
  show ?thesis
  proof (cases "Board_IsValid b \<and> e = None \<and> Board_EmptyCount b2 \<noteq> 0")
    case True
    then obtain ok b3 r3 c3 where
      3: "backtrack fuel opts (b2, r1, makeContext opts polls) = Some (ok, b3, r3, c3)"
      using assms 1 2 unfolding Solve_board_def
      by (auto simp del: backtrack.simps split: option.splits)
    with True assms 1 2 have "ok" "b3 = b'" unfolding Solve_board_def
      by (auto simp del: backtrack.simps split: if_splits)
    with 3 have "backtrack fuel opts (b2, r1, makeContext opts polls) = Some (True, b', r3, c3)"
      by simp
    then show ?thesis by (rule backtrack_True)
  next
    case False
    then show ?thesis using assms 1 2 unfolding Solve_board_def
      by (cases e) (auto simp del: backtrack.simps split: if_splits)
  qed
qed

lemma Solve_board_length:
  assumes "length (cells b) = 81" "82 \<le> fuel"
    and "Solve_board fuel opts polls (b, r) = Some (res, b', r')"
  shows "length (cells b') = 81"
proof -
  obtain b1 r1 where 1: "(if Board_EmptyCount b = 81 \<and> Type (layout b) = ''standard''
          then fillThreeBoxes opts (b, r) else (b, r)) = (b1, r1)"
    by (cases "(if Board_EmptyCount b = 81 \<and> Type (layout b) = ''standard''
          then fillThreeBoxes opts (b, r) else (b, r))") 
  obtain e b2 where 2: "PropagateConstraints b1 = (e, b2)" by (cases "PropagateConstraints b1")
  have l: "length (cells b2) = 81" using assms(1) 1 2 by (rule Solve_board_start)
  from backtrack_returns[OF l assms(2), of opts r1 "makeContext opts polls"] obtain ok b3 r3 c3
    where 3: "backtrack fuel opts (b2, r1, makeContext opts polls) = Some (ok, b3, r3, c3)"
      and f: "fills b2 b3" by blast
  have l3: "length (cells b3) = 81" using f l by (simp add: fills_def)
  show ?thesis using assms(1,3) 1 2 3 l l3 unfolding Solve_board_def
    by (cases e) (auto simp del: backtrack.simps split: if_splits)
qed

lemma set_update_lt:
  assumes "\<forall>x \<in> set xs. x < (n::nat)" "v < n"
  shows "\<forall>x \<in> set (xs[k := v]). x < n"
proof
  fix x assume "x \<in> set (xs[k := v])"
  then have "x \<in> insert v (set xs)" using set_update_subset_insert[of xs k v] by blast
  then show "x < n" using assms by blast
qed

lemma Perm_loop_range:
  "\<forall>i \<in> set is. i < n \<Longrightarrow> length m = n \<Longrightarrow> \<forall>x \<in> set m. x < n \<Longrightarrow>
   \<forall>x \<in> set (fst (Perm_loop is m r)). x < n"
proof (induction "is" arbitrary: m r)
  case Nil
  then show ?case by simp
next
  case (Cons i rest)
  obtain j r1 where j: "Intn (i + 1) r = (j, r1)" by (cases "Intn (i + 1) r")
  have i: "i < n" using Cons.prems(1) by simp
  have "j < i + 1" using Intn_lt[of "i + 1" r] j by simp
  then have "j < length m" using i Cons.prems(2) by simp
  then have "m ! j \<in> set m" by (rule nth_mem)
  then have mj: "m ! j < n" using Cons.prems(3) by blast
  have 1: "\<forall>x \<in> set (m[i := m ! j]). x < n"
    using Cons.prems(3) mj by (rule set_update_lt)
  have 2: "\<forall>x \<in> set ((m[i := m ! j])[j := i]). x < n"
    using 1 i by (rule set_update_lt)
  have 3: "length ((m[i := m ! j])[j := i]) = n" using Cons.prems(2) by simp
  have 4: "\<forall>i \<in> set rest. i < n" using Cons.prems(1) by simp
  have "Perm_loop (i # rest) m r = Perm_loop rest ((m[i := m ! j])[j := i]) r1"
    using j by simp
  with Cons.IH[OF 4 3 2, of r1] show ?case by simp
qed

lemma Perm_range:
  assumes "Perm n r = (ps, r')"
  shows "\<forall>p \<in> set ps. p < n"
proof (cases "n = 0")
  case True
  with assms show ?thesis by (simp add: Perm_def)
next
  case False
  have a: "\<forall>i \<in> set [0..<n]. i < n" by simp
  have b: "length (replicate n (0::nat)) = n" by simp
  have c: "\<forall>x \<in> set (replicate n (0::nat)). x < n" using False by simp
  from Perm_loop_range[OF a b c, of r] assms show ?thesis by (simp add: Perm_def)
qed

lemma count_candidates_total:
  assumes rec: "\<And>b cnt. length (cells b) = 81 \<Longrightarrow> zeros b < n \<Longrightarrow> \<exists>res. f b cnt = Some res"
  shows "p < 81 \<Longrightarrow> \<forall>v \<in> set vs. v \<noteq> 0 \<Longrightarrow> length (cells b) = 81 \<Longrightarrow> cells b ! p = 0 \<Longrightarrow>
     zeros b \<le> n \<Longrightarrow> \<exists>res. count_candidates f b (int p) vs cnt = Some res"
proof (induction vs arbitrary: cnt)
  case Nil
  then show ?case by simp
next
  case (Cons v vs)
  then have v: "v \<noteq> 0" and vs: "\<forall>v \<in> set vs. v \<noteq> 0" by simp_all
  let ?b1 = "Board_SetForce b (int p) v"
  have z1: "zeros ?b1 + 1 = zeros b"
    using zeros_SetForce_empty[OF v _ Cons.prems(4)] Cons.prems(1,3) by simp
  have l1: "length (cells ?b1) = 81" using Cons.prems(3) by (simp add: Board_SetForce_cells)
  from z1 Cons.prems(5) have "zeros ?b1 < n" by simp
  from rec[OF l1 this, of cnt] obtain ok cnt' where 2: "f ?b1 cnt = Some (ok, cnt')" by force
  from Cons.IH[OF Cons.prems(1) vs Cons.prems(3,4,5), of cnt'] 2 show ?case by auto
qed

lemma count_backtrack_total:
  "length (cells b) = 81 \<Longrightarrow> zeros b < fuel \<Longrightarrow> \<exists>res. count_backtrack fuel b cnt = Some res"
proof (induction fuel arbitrary: b cnt)
  case 0
  then show ?case by simp
next
  case (Suc fuel)
  obtain e b1 where p: "PropagateConstraints b = (e, b1)" by (cases "PropagateConstraints b")
  have f1: "fills b b1" using fills_PropagateConstraints[of b] p by simp
  then have l1: "length (cells b1) = 81" and z1: "zeros b1 \<le> fuel"
    using Suc.prems by (simp_all add: fills_def)
  obtain pos cands where m: "FindMRVCell b1 = (pos, cands)" by (cases "FindMRVCell b1")
  show ?case
  proof (cases "e = None \<and> Board_EmptyCount b1 \<noteq> 0 \<and> cands \<noteq> []")
    case True
    then have nc: "cands \<noteq> []" by simp
    from FindMRVCell_result[OF m nc] obtain q where q: "q < 81" "pos = int q"
      "Board_Get b1 (int q) = 0" "cands = Board_GetCandidates b1 (int q)" by blast
    have nz: "\<forall>v \<in> set cands. v \<noteq> 0" using q(4) Board_GetCandidates_range by fastforce
    have c0: "cells b1 ! q = 0" using q(1,3) by (simp add: Board_Get_nth)
    have rec: "\<And>b cnt. length (cells b) = 81 \<Longrightarrow> zeros b < fuel \<Longrightarrow>
        \<exists>res. count_backtrack fuel b cnt = Some res"
      using Suc.IH by blast
    from count_candidates_total[where f = "count_backtrack fuel" and n = fuel,
        OF rec q(1) nz l1 c0 z1, of cnt]
    show ?thesis using True p m q(2) by simp
  next
    case False
    then show ?thesis using p m
      by (cases e; cases "Board_EmptyCount b1 = 0"; cases "cands = []") auto
  qed
qed

lemma hasUniqueSolution_returns:
  assumes "length (cells b) = 81" "82 \<le> fuel"
  shows "\<exists>u. hasUniqueSolution fuel b = Some u"
proof -
  have "zeros b < fuel" using zeros_le[of b] assms by simp
  from count_backtrack_total[OF assms(1) this, of 0] show ?thesis
    by (auto simp: hasUniqueSolution_def countSolutions_def)
qed

lemma Board_Clear_emptyCount:
  "p < 81 \<Longrightarrow> cells b ! p \<noteq> 0 \<Longrightarrow> emptyCount (snd (Board_Clear b (int p))) = emptyCount b + 1"
  by (simp add: Board_Clear_def validatePosition_def isValidPosition_def Let_def split: if_splits)

lemma removeCells_loop_result:
  assumes "82 \<le> fuel"
  shows "\<forall>p \<in> set ps. p < 81 \<Longrightarrow> length (cells puzzle) = 81 \<Longrightarrow> k \<le> target \<Longrightarrow>
    \<exists>puzzle' k'. removeCells_loop fuel opts target ps (puzzle, k) = Some (puzzle', k') \<and>
       emptyCount puzzle' - k' = emptyCount puzzle - k \<and> length (cells puzzle') = 81 \<and>
       k' \<le> target"
proof (induction ps arbitrary: puzzle k)
  case Nil
  then show ?case by simp
next
  case (Cons p ps)
  have p: "p < 81" and ps: "\<forall>p \<in> set ps. p < 81" using Cons.prems(1) by simp_all
  let ?v = "Board_Get puzzle (int p)"
  have v: "?v = cells puzzle ! p" using p by (simp add: Board_Get_nth)
  let ?p1 = "snd (Board_Clear puzzle (int p))"
  let ?p2 = "Board_SetForce ?p1 (int p) ?v"
  have l1: "length (cells ?p1) = 81" using Cons.prems(2) by (simp add: length_Clear)
  have l2: "length (cells ?p2) = 81" using l1 by (simp add: Board_SetForce_cells)
  show ?case
  proof (cases "k \<ge> target")
    case True
    then show ?thesis using Cons.prems(2,3) by simp
  next
    case lt: False
    then have k1: "k + 1 \<le> target" and k2: "k + 1 - 1 \<le> target" by simp_all
    show ?thesis
    proof (cases "?v = 0")
      case True
      then show ?thesis using lt Cons.IH[OF ps Cons.prems(2,3)] by (simp add: Let_def)
    next
      case False
      then have nz: "cells puzzle ! p \<noteq> 0" using v by simp
      have e1: "emptyCount ?p1 = emptyCount puzzle + 1"
        using p nz by (rule Board_Clear_emptyCount)
      have e2: "emptyCount ?p2 = emptyCount puzzle"
        using e1 by (simp add: Board_SetForce_emptyCount)
      from hasUniqueSolution_returns[OF l1 assms] obtain u where
        u: "hasUniqueSolution fuel ?p1 = Some u" by blast
      from Cons.IH[OF ps l1 k1] e1 obtain q1 n1 where
        A: "removeCells_loop fuel opts target ps (?p1, k + 1) = Some (q1, n1)"
           "emptyCount q1 - n1 = emptyCount puzzle - k" "length (cells q1) = 81" "n1 \<le> target"
        by auto
      from Cons.IH[OF ps l2 k2] e2 obtain q2 n2 where
        B: "removeCells_loop fuel opts target ps (?p2, k + 1 - 1) = Some (q2, n2)"
           "emptyCount q2 - n2 = emptyCount puzzle - k" "length (cells q2) = 81" "n2 \<le> target"
        by auto
      have step: "removeCells_loop fuel opts target (p # ps) (puzzle, k) =
          (if EnsureUnique opts \<and> \<not> u
           then removeCells_loop fuel opts target ps (?p2, k + 1 - 1)
           else removeCells_loop fuel opts target ps (?p1, k + 1))"
        using lt False u by (cases u) (simp_all add: Let_def)
      show ?thesis unfolding step using A B by (cases "EnsureUnique opts \<and> \<not> u") simp_all
    qed
  qed
qed

lemma removeCells_result:
  assumes "82 \<le> fuel" "length (cells solution) = 81" "emptyCount solution = 0"
    and "ClueCount opts \<le> 80"
  shows "\<exists>puzzle e r'. removeCells fuel opts r solution = Some ((puzzle, e), r') \<and>
     (case e of None \<Rightarrow> Board_ClueCount puzzle = ClueCount opts
      | Some err \<Rightarrow> err = ErrDiggingFailed \<and> ClueCount opts < Board_ClueCount puzzle) \<and>
     length (cells puzzle) = 81"
proof -
  obtain ps r' where P: "Perm 81 r = (ps, r')" by (cases "Perm 81 r")
  have rg: "\<forall>p \<in> set ps. p < 81" using P by (rule Perm_range)
  have t: "0 \<le> 81 - ClueCount opts" using assms(4) by simp
  from removeCells_loop_result[OF assms(1) rg assms(2) t, of opts]
  obtain puzzle k where
    L: "removeCells_loop fuel opts (81 - ClueCount opts) ps (solution, 0) = Some (puzzle, k)"
       "emptyCount puzzle - k = emptyCount solution - 0" "length (cells puzzle) = 81"
       "k \<le> 81 - ClueCount opts" by blast
  have e: "emptyCount puzzle = k" using L(2) assms(3) by simp
  show ?thesis
  proof (cases "k = 81 - ClueCount opts")
    case True
    with P L(1,3) e show ?thesis by (simp add: removeCells_def Let_def Board_ClueCount_def)
  next
    case False
    with L(4) have "k < 81 - ClueCount opts" by simp
    with False P L(1,3) e show ?thesis
      by (simp add: removeCells_def Let_def Board_ClueCount_def)
  qed
qed

lemma generateSolution_result:
  assumes "82 \<le> fuel"
  shows "\<exists>res. generateSolution fuel src opts a = Some res \<and>
     (case res of Inl e \<Rightarrow> True
      | Inr solution \<Rightarrow> length (cells solution) = 81 \<and> emptyCount solution = 0)"
proof -
  let ?o = "\<lparr>MaxSolutions = 1, Randomize = True, Timeout = generator_Options.Timeout opts\<rparr>"
  let ?b = "board_New (Layout opts)"
  let ?r = "Some (src (solver_now a))"
  have l: "length (cells ?b) = 81" by (simp add: board_New_def)
  from Solve_board_returns[OF l assms, of ?o "solver_polls a" ?r] obtain res b' r' where
    s: "Solve_board fuel ?o (solver_polls a) (?b, ?r) = Some (res, b', r')" by (metis prod_cases3)
  have l': "length (cells b') = 81" using l assms s by (rule Solve_board_length)
  show ?thesis
  proof (cases res)
    case (Inl e)
    with s show ?thesis by (simp add: generateSolution_def)
  next
    case (Inr u)
    with s have "Board_EmptyCount b' = 0" using Solve_board_Inr by blast
    with s Inr l' show ?thesis by (simp add: generateSolution_def Board_EmptyCount_def)
  qed
qed

lemma Generate_loop_result:
  assumes "82 \<le> fuel" "ClueCount opts \<le> 80"
  shows "\<exists>res r'. Generate_loop fuel src opts env r = Some (res, r') \<and>
     (case res of Inl e \<Rightarrow> e = ErrGenerationFailed
      | Inr (puzzle, solution) \<Rightarrow> Board_ClueCount puzzle = ClueCount opts)"
proof (induction env arbitrary: r)
  case Nil
  then show ?case by simp
next
  case (Cons a env)
  from generateSolution_result[OF assms(1), of src opts a] obtain res where
    g: "generateSolution fuel src opts a = Some res"
       "case res of Inl e \<Rightarrow> True
        | Inr solution \<Rightarrow> length (cells solution) = 81 \<and> emptyCount solution = 0" by blast
  show ?case
  proof (cases res)
    case (Inl e)
    with g(1) Cons.IH[of r] show ?thesis by simp
  next
    case (Inr solution)
    with g(2) have sl: "length (cells solution) = 81" "emptyCount solution = 0" by simp_all
    from removeCells_result[OF assms(1) sl assms(2), of r] obtain puzzle e r' where
      rc: "removeCells fuel opts r solution = Some ((puzzle, e), r')"
          "case e of None \<Rightarrow> Board_ClueCount puzzle = ClueCount opts
           | Some err \<Rightarrow> err = ErrDiggingFailed \<and> ClueCount opts < Board_ClueCount puzzle"
          "length (cells puzzle) = 81"
      by blast
    from hasUniqueSolution_returns[OF rc(3) assms(1)] obtain u where
      u: "hasUniqueSolution fuel puzzle = Some u" by blast
    show ?thesis
    proof (cases e)
      case (Some err)
      with g(1) Inr rc(1) Cons.IH[of r'] show ?thesis by simp
    next
      case None
      with g(1) Inr rc(1,2) u Cons.IH[of r'] show ?thesis
        by (cases u; cases "EnsureUnique opts") simp_all
    qed
  qed
qed

lemma Generate_retry:
  assumes "82 \<le> fuel" "ClueCount (Generator.options g) \<le> 80"
    and "0 < generator_Options.Timeout (Generator.options g)"
    and "17 \<le> ClueCount (Generator.options g)"
    and "generateSolution fuel src (Generator.options g) a = Some (Inr solution)"
    and "removeCells fuel (Generator.options g) (Generator.rng g) solution = Some ((puzzle, Some e), r')"
  shows "e = ErrDiggingFailed \<and> ClueCount (Generator.options g) < Board_ClueCount puzzle \<and>
      Generate fuel src g (a # env) = Generate fuel src (g\<lparr>Generator.rng := r'\<rparr>) env"
proof -
  from generateSolution_result[OF assms(1), of src "Generator.options g" a] assms(5)
  have sl: "length (cells solution) = 81" "emptyCount solution = 0" by auto
  from removeCells_result[OF assms(1) sl assms(2), of "Generator.rng g"] assms(6)
  have 1: "e = ErrDiggingFailed \<and> ClueCount (Generator.options g) < Board_ClueCount puzzle"
    by auto
  have "Generate_loop fuel src (Generator.options g) (a # env) (Generator.rng g) =
        Generate_loop fuel src (Generator.options g) env r'"
    using assms(5,6) by simp
  then have 2: "Generate fuel src g (a # env) = Generate fuel src (g\<lparr>Generator.rng := r'\<rparr>) env"
    using assms(2,3,4) by (simp add: Generate_def split: option.splits)
  from 1 2 show ?thesis by simp
qed

section \<open>The search keeps the cells it was given\<close>

lemma keeps_refl: "keeps b b"
  by (simp add: keeps_def)

lemma keeps_trans: "keeps a b \<Longrightarrow> keeps b c \<Longrightarrow> keeps a c"
  by (simp add: keeps_def)

lemma keeps_empty: "keeps b0 b \<Longrightarrow> cells b ! p = 0 \<Longrightarrow> cells b0 ! p = 0"
  by (auto simp: keeps_def)

lemma keeps_update:
  assumes "keeps b0 b" "cells b0 ! i = 0" "cells b1 = (cells b)[i := v]"
  shows "keeps b0 b1"
  unfolding keeps_def
proof (intro conjI allI impI)
  show "length (cells b1) = length (cells b0)" using assms(1,3) by (simp add: keeps_def)
  fix p assume p: "cells b0 ! p \<noteq> 0"
  with assms(2) have "p \<noteq> i" by auto
  then have "cells b1 ! p = cells b ! p" using assms(3) by simp
  with p assms(1) show "cells b1 ! p = cells b0 ! p" by (simp add: keeps_def)
qed

lemma keeps_SetForce_at:
  "keeps b0 b \<Longrightarrow> cells b0 ! nat pos = 0 \<Longrightarrow> keeps b0 (Board_SetForce b pos v)"
  by (rule keeps_update[where i = "nat pos" and v = v]) (simp_all add: Board_SetForce_cells)

lemma keeps_Clear_at:
  assumes "keeps b0 b" "cells b0 ! nat pos = 0"
  shows "keeps b0 (snd (Board_Clear b pos))"
proof (cases "isValidPosition pos \<and> cells b ! nat pos \<noteq> 0")
  case True
  then have "cells (snd (Board_Clear b pos)) = (cells b)[nat pos := 0]"
    by (simp add: Board_Clear_cells)
  with assms show ?thesis by (rule keeps_update)
next
  case False
  then have "cells (snd (Board_Clear b pos)) = cells b" by (auto simp: Board_Clear_cells)
  with assms(1) show ?thesis by (simp add: keeps_def)
qed

lemma Board_Get_0: "Board_Get b pos = 0 \<Longrightarrow> cells b ! nat pos = 0"
  by (simp add: Board_Get_def split: if_splits)

lemma keeps_naked_loop:
  "keeps b0 b \<Longrightarrow> keeps b0 (fst (applyNakedSingles_loop ps (b, c)))"
proof (induction ps arbitrary: b c)
  case Nil
  then show ?case by simp
next
  case (Cons p ps)
  show ?case
  proof (cases "Board_Get b (int p) = 0")
    case False
    then show ?thesis using Cons.IH[OF Cons.prems] by simp
  next
    case True
    then have "cells b ! p = 0" using Board_Get_0[of b "int p"] by simp
    then have "cells b0 ! nat (int p) = 0" using keeps_empty[OF Cons.prems] by simp
    then have k: "keeps b0 (Board_SetForce b (int p) v)" for v
      using Cons.prems by (rule keeps_SetForce_at[rotated])
    show ?thesis using True Cons.prems Cons.IH[OF Cons.prems] Cons.IH[OF k]
      by (simp add: Let_def)
  qed
qed

lemma add_possibilities_inv:
  assumes "\<forall>k<length vp. \<forall>q \<in> set (vp ! k). Board_Get b q = 0"
  shows "\<forall>k<length (add_possibilities b pos vp).
           \<forall>q \<in> set (add_possibilities b pos vp ! k). Board_Get b q = 0"
proof (cases "Board_Get b pos = 0")
  case False
  with assms show ?thesis by (simp add: add_possibilities_def)
next
  case True
  have "\<forall>k<length (fold (\<lambda>v vp. vp[nat v := vp ! nat v @ [pos]]) vs vp).
           \<forall>q \<in> set (fold (\<lambda>v vp. vp[nat v := vp ! nat v @ [pos]]) vs vp ! k). Board_Get b q = 0"
    if "\<forall>k<length vp. \<forall>q \<in> set (vp ! k). Board_Get b q = 0" for vs vp
    using that
  proof (induction vs arbitrary: vp)
    case Nil
    then show ?case by simp
  next
    case (Cons v vs)
    have "\<forall>k<length (vp[nat v := vp ! nat v @ [pos]]).
            \<forall>q \<in> set (vp[nat v := vp ! nat v @ [pos]] ! k). Board_Get b q = 0"
    proof (intro allI impI ballI)
      fix k q assume k: "k < length (vp[nat v := vp ! nat v @ [pos]])"
        and q: "q \<in> set (vp[nat v := vp ! nat v @ [pos]] ! k)"
      show "Board_Get b q = 0"
      proof (cases "k = nat v")
        case True
        with k q have "q \<in> set (vp ! nat v) \<or> q = pos" by auto
        with True k Cons.prems \<open>Board_Get b pos = 0\<close> show ?thesis by auto
      next
        case False
        with k q Cons.prems show ?thesis by auto
      qed
    qed
    from Cons.IH[OF this] show ?case by simp
  qed
  with assms True show ?thesis by (simp add: add_possibilities_def)
qed

lemma valuePossibilities_empty:
  "\<forall>k<length (valuePossibilities b cs). \<forall>q \<in> set (valuePossibilities b cs ! k). Board_Get b q = 0"
proof -
  have "\<forall>k<length (fold (add_possibilities b) cs vp).
          \<forall>q \<in> set (fold (add_possibilities b) cs vp ! k). Board_Get b q = 0"
    if "\<forall>k<length vp. \<forall>q \<in> set (vp ! k). Board_Get b q = 0" for vp
    using that
  proof (induction cs arbitrary: vp)
    case Nil
    then show ?case by simp
  next
    case (Cons c cs)
    from Cons.IH[OF add_possibilities_inv[OF Cons.prems]] show ?case by simp
  qed
  from this[of "replicate 10 []"] show ?thesis unfolding valuePossibilities_def by simp
qed

lemma length_add_possibilities: "length (add_possibilities b pos vp) = length vp"
proof -
  have "length (fold (\<lambda>v vp. vp[nat v := vp ! nat v @ [pos]]) vs vp) = length vp" for vs
    by (induction vs arbitrary: vp) simp_all
  then show ?thesis by (simp add: add_possibilities_def)
qed

lemma length_valuePossibilities: "length (valuePossibilities b cs) = 10"
proof -
  have "length (fold (add_possibilities b) cs vp) = length vp" for vp
    by (induction cs arbitrary: vp) (simp_all add: length_add_possibilities)
  then show ?thesis by (simp add: valuePossibilities_def)
qed

lemma keeps_place_singles:
  assumes "\<forall>v \<in> set vs. \<forall>q \<in> set (vp ! nat v). cells b0 ! nat q = 0"
  shows "keeps b0 b \<Longrightarrow> keeps b0 (fst (place_singles vp vs (b, c)))"
  using assms
proof (induction vs arbitrary: b c)
  case Nil
  then show ?case by simp
next
  case (Cons v vs)
  have rest: "\<forall>v \<in> set vs. \<forall>q \<in> set (vp ! nat v). cells b0 ! nat q = 0"
    using Cons.prems(2) by simp
  show ?case
  proof (cases "length (vp ! nat v) = 1")
    case False
    then show ?thesis using Cons.IH[OF Cons.prems(1) rest] by simp
  next
    case True
    then have "vp ! nat v ! 0 \<in> set (vp ! nat v)" by (simp add: nth_mem)
    then have "cells b0 ! nat (vp ! nat v ! 0) = 0" using Cons.prems(2) by simp
    with Cons.prems(1) have "keeps b0 (Board_SetForce b (vp ! nat v ! 0) v)"
      by (rule keeps_SetForce_at)
    from Cons.IH[OF this rest] True show ?thesis by simp
  qed
qed

lemma keeps_findHiddenSingles: "keeps b (fst (findHiddenSingles cs b))"
proof -
  have "\<forall>v \<in> set [1..9]. \<forall>q \<in> set (valuePossibilities b cs ! nat v). cells b ! nat q = 0"
  proof (intro ballI)
    fix v q assume v: "v \<in> set [1..9]" and q: "q \<in> set (valuePossibilities b cs ! nat v)"
    from v have "1 \<le> v \<and> v \<le> 9" by simp
    then have "nat v < 10" by linarith
    then have "nat v < length (valuePossibilities b cs)"
      by (simp add: length_valuePossibilities)
    with q valuePossibilities_empty[of b cs] have "Board_Get b q = 0" by blast
    then show "cells b ! nat q = 0" by (rule Board_Get_0)
  qed
  from keeps_place_singles[OF this keeps_refl] show ?thesis by (simp add: findHiddenSingles_def)
qed

lemma keeps_over_units:
  "(\<And>x b. keeps b (fst (f x b))) \<Longrightarrow> keeps b (fst (over_units f xs (b, c)))"
proof (induction xs arbitrary: b c)
  case Nil
  then show ?case by (simp add: keeps_refl)
next
  case (Cons x xs)
  obtain b1 c1 where 1: "f x b = (b1, c1)" by (cases "f x b")
  have "keeps b b1" using Cons.prems[of b x] 1 by simp
  moreover have "keeps b1 (fst (over_units f xs (b1, c1 \<or> c)))" using Cons.IH[OF Cons.prems] .
  ultimately show ?case using 1 by (simp add: keeps_trans)
qed

lemma keeps_applyHiddenSingles: "keeps b (fst (applyHiddenSingles b))"
proof -
  have r: "\<And>x b. keeps b (fst (findHiddenSinglesInRow x b))"
    by (simp add: findHiddenSinglesInRow_def keeps_findHiddenSingles)
  have c: "\<And>x b. keeps b (fst (findHiddenSinglesInCol x b))"
    by (simp add: findHiddenSinglesInCol_def keeps_findHiddenSingles)
  have g: "\<And>x b. keeps b (fst (findHiddenSinglesInRegion x b))"
    by (simp add: findHiddenSinglesInRegion_def keeps_findHiddenSingles)
  obtain b1 c1 where 1: "over_units findHiddenSinglesInRow [0..8] (b, False) = (b1, c1)"
    by (cases "over_units findHiddenSinglesInRow [0..8] (b, False)")
  obtain b2 c2 where 2: "over_units findHiddenSinglesInCol [0..8] (b1, c1) = (b2, c2)"
    by (cases "over_units findHiddenSinglesInCol [0..8] (b1, c1)")
  have k1: "keeps b b1" using keeps_over_units[of findHiddenSinglesInRow b "[0..8]" False, OF r] 1
    by simp
  have k2: "keeps b1 b2" using keeps_over_units[of findHiddenSinglesInCol b1 "[0..8]" c1, OF c] 2
    by simp
  have k3: "keeps b2 (fst (over_units findHiddenSinglesInRegion [0..<9] (b2, c2)))"
    using keeps_over_units[of findHiddenSinglesInRegion b2 "[0..<9]" c2, OF g] .
  from k1 k2 k3 1 2 show ?thesis
    unfolding applyHiddenSingles_def by (metis keeps_trans)
qed

lemma keeps_Propagate_loop: "keeps b (snd (PropagateConstraints_loop k b))"
proof (induction k arbitrary: b)
  case 0
  then show ?case by (simp add: keeps_refl)
next
  case (Suc k)
  obtain b1 c1 where 1: "applyNakedSingles b = (b1, c1)" by (cases "applyNakedSingles b")
  obtain b2 c2 where 2: "applyHiddenSingles b1 = (b2, c2)" by (cases "applyHiddenSingles b1")
  have "keeps b b1" using keeps_naked_loop[OF keeps_refl, of b "[0..<81]" False] 1
    by (simp add: applyNakedSingles_def)
  moreover have "keeps b1 b2" using keeps_applyHiddenSingles[of b1] 2 by simp
  ultimately have k: "keeps b b2" by (rule keeps_trans)
  from k Suc.IH[of b2] have "keeps b (snd (PropagateConstraints_loop k b2))" by (rule keeps_trans)
  with k 1 2 show ?case by simp
qed

lemma keeps_PropagateConstraints: "keeps b (snd (PropagateConstraints b))"
  by (simp add: PropagateConstraints_def keeps_Propagate_loop)

lemma try_candidates_keeps:
  assumes "\<And>b r c ok b' r' c'. f (b, r, c) = Some (ok, b', r', c') \<Longrightarrow> keeps b b'"
  shows "keeps b0 b \<Longrightarrow> cells b0 ! nat pos = 0 \<Longrightarrow>
     try_candidates f pos vs (b, r, c) = Some (ok, b', r', c') \<Longrightarrow> keeps b0 b'"
proof (induction vs arbitrary: b r c)
  case Nil
  then show ?case by simp
next
  case (Cons v vs)
  from Cons.prems(3) obtain ok2 b2 r2 c2 where
    1: "f (Board_SetForce b pos v, r, c) = Some (ok2, b2, r2, c2)"
    by (auto split: option.splits)
  have "keeps b0 (Board_SetForce b pos v)" using Cons.prems(1,2) by (rule keeps_SetForce_at)
  moreover have "keeps (Board_SetForce b pos v) b2" using 1 by (rule assms)
  ultimately have k2: "keeps b0 b2" by (rule keeps_trans)
  show ?case
  proof (cases ok2)
    case True
    with Cons.prems(3) 1 have "b2 = b'" by simp
    with k2 show ?thesis by simp
  next
    case False
    have k3: "keeps b0 (snd (Board_Clear b2 pos))" using k2 Cons.prems(2) by (rule keeps_Clear_at)
    from False Cons.prems(3) 1 have
      "try_candidates f pos vs (snd (Board_Clear b2 pos), r2, c2) = Some (ok, b', r', c')" by simp
    from Cons.IH[OF k3 Cons.prems(2) this] show ?thesis .
  qed
qed

lemma backtrack_keeps:
  "backtrack fuel opts (b, r, c) = Some (ok, b', r', c') \<Longrightarrow> keeps b b'"
proof (induction fuel arbitrary: b r c ok b' r' c')
  case 0
  then show ?case by simp
next
  case (Suc fuel)
  obtain d c1 where d: "ctx_Done c = (d, c1)" by (cases "ctx_Done c")
  obtain e b1 where p: "PropagateConstraints b = (e, b1)" by (cases "PropagateConstraints b")
  obtain pos cands where m: "FindMRVCell b1 = (pos, cands)" by (cases "FindMRVCell b1")
  obtain sh r1 where s: "maybe_shuffle opts cands r = (sh, r1)"
    by (cases "maybe_shuffle opts cands r")
  have k1: "keeps b b1" using keeps_PropagateConstraints[of b] p by simp
  show ?case
  proof (cases "\<not> d \<and> e = None \<and> Board_EmptyCount b1 \<noteq> 0 \<and> cands \<noteq> []")
    case True
    then have t: "try_candidates (backtrack fuel opts) pos sh (b1, r1, c1) = Some (ok, b', r', c')"
      using Suc.prems d p m s by simp
    from True have nc: "cands \<noteq> []" by simp
    from FindMRVCell_result[OF m nc] obtain q where q: "q < 81" "pos = int q"
      "Board_Get b1 (int q) = 0" by blast
    have c0: "cells b1 ! nat pos = 0" using q(2,3) Board_Get_0[of b1 "int q"] by simp
    have "keeps b1 b'"
    proof (rule try_candidates_keeps[where f = "backtrack fuel opts", OF _ keeps_refl c0 t])
      show "\<And>b r c ok b' r' c'. backtrack fuel opts (b, r, c) = Some (ok, b', r', c') \<Longrightarrow> keeps b b'"
        by (rule Suc.IH)
    qed
    with k1 show ?thesis by (rule keeps_trans)
  next
    case False
    then have "b' = b \<or> b' = b1"
      using Suc.prems d p m s
      by (cases d; cases e; cases "Board_EmptyCount b1 = 0"; cases "cands = []") auto
    with k1 show ?thesis using keeps_refl by auto
  qed
qed

lemma maybe_shuffle_Randomize:
  "Randomize o1 = Randomize o2 \<Longrightarrow> maybe_shuffle o1 xs r = maybe_shuffle o2 xs r"
  by (cases r) (simp_all add: maybe_shuffle_def)

lemma fill_boxes_Randomize:
  "Randomize o1 = Randomize o2 \<Longrightarrow> fill_boxes o1 bs nums st = fill_boxes o2 bs nums st"
proof (induction o1 bs nums st rule: fill_boxes.induct)
  case (1 opts nums b r)
  then show ?case by simp
next
  case (2 opts boxRow boxCol rest nums b r)
  obtain n' r' where m: "maybe_shuffle opts nums r = (n', r')" by (cases "maybe_shuffle opts nums r")
  then have m2: "maybe_shuffle o2 nums r = (n', r')"
    using maybe_shuffle_Randomize[OF "2.prems", of nums r] by simp
  from "2.IH"[OF m[symmetric] "2.prems"] m m2 show ?case by simp
qed

lemma fillThreeBoxes_Randomize:
  "Randomize o1 = Randomize o2 \<Longrightarrow> fillThreeBoxes o1 st = fillThreeBoxes o2 st"
  by (simp add: fillThreeBoxes_def maybe_shuffle_Randomize[of o1 o2] fill_boxes_Randomize[of o1 o2]
      split: prod.splits)

lemma Solve_board_keeps:
  assumes "Solve_board fuel opts polls (b, r) = Some (Inr u, b', r')"
  shows "keeps (fst (if Board_EmptyCount b = 81 \<and> Type (layout b) = ''standard''
                     then fillThreeBoxes opts (b, r) else (b, r))) b'"
proof -
  obtain b1 r1 where 1: "(if Board_EmptyCount b = 81 \<and> Type (layout b) = ''standard''
          then fillThreeBoxes opts (b, r) else (b, r)) = (b1, r1)"
    by (cases "(if Board_EmptyCount b = 81 \<and> Type (layout b) = ''standard''
          then fillThreeBoxes opts (b, r) else (b, r))") 
  obtain e b2 where 2: "PropagateConstraints b1 = (e, b2)" by (cases "PropagateConstraints b1")
  have k2: "keeps b1 b2" using keeps_PropagateConstraints[of b1] 2 by simp
  have "keeps b1 b'"
  proof (cases "Board_IsValid b \<and> e = None \<and> Board_EmptyCount b2 \<noteq> 0")
    case True
    then obtain ok b3 r3 c3 where
      3: "backtrack fuel opts (b2, r1, makeContext opts polls) = Some (ok, b3, r3, c3)"
      using assms 1 2 unfolding Solve_board_def
      by (auto simp del: backtrack.simps split: option.splits)
    with True assms 1 2 have "b3 = b'" unfolding Solve_board_def
      by (auto simp del: backtrack.simps split: if_splits)
    with 3 have "keeps b2 b'" using backtrack_keeps by blast
    with k2 show ?thesis by (rule keeps_trans)
  next
    case False
    then have "b' = b2" using assms 1 2 unfolding Solve_board_def
      by (cases e) (auto simp del: backtrack.simps split: if_splits)
    with k2 show ?thesis by simp
  qed
  with 1 show ?thesis by simp
qed

lemma Type_board_New_None: "Type (layout (board_New None)) = ''standard''"
  by (simp add: board_New_def StandardLayout_eq)

lemma generateSolution_keeps:
  assumes "generateSolution fuel src (opts\<lparr>Layout := None\<rparr>) a = Some (Inr s)"
  shows "keeps (fst (fillThreeBoxes \<lparr>MaxSolutions = 1, Randomize = True, Timeout = 0\<rparr>
                      (board_New None, Some (src (solver_now a))))) s"
proof -
  let ?o = "\<lparr>MaxSolutions = 1, Randomize = True,
             Timeout = generator_Options.Timeout (opts\<lparr>Layout := None\<rparr>)\<rparr>"
  from assms obtain u r' where
    S: "Solve_board fuel ?o (solver_polls a) (board_New None, Some (src (solver_now a))) =
          Some (Inr u, s, r')"
    by (auto simp: generateSolution_def split: option.splits sum.splits)
  have e: "Board_EmptyCount (board_New None) = 81"
    by (simp add: Board_EmptyCount_def board_New_def)
  from Solve_board_keeps[OF S] e Type_board_New_None
  have "keeps (fst (fillThreeBoxes ?o (board_New None, Some (src (solver_now a))))) s" by simp
  moreover have "fillThreeBoxes ?o (board_New None, Some (src (solver_now a))) =
      fillThreeBoxes \<lparr>MaxSolutions = 1, Randomize = True, Timeout = 0\<rparr>
        (board_New None, Some (src (solver_now a)))"
    by (rule fillThreeBoxes_Randomize) simp
  ultimately show ?thesis by simp
qed

lemma Generate_single:
  assumes "Generate fuel src g [a] = Some (Inr (puzzle, solution), g')"
  shows "generateSolution fuel src (Generator.options g) a = Some (Inr solution)"
proof -
  from assms obtain r' where
    L: "Generate_loop fuel src (Generator.options g) [a] (Generator.rng g) =
          Some (Inr (puzzle, solution), r')"
    by (auto simp: Generate_def split: if_splits option.splits)
  show ?thesis
  proof (cases "generateSolution fuel src (Generator.options g) a")
    case None
    with L show ?thesis by simp
  next
    case (Some res)
    show ?thesis
    proof (cases res)
      case (Inl e)
      with Some L show ?thesis by simp
    next
      case (Inr s)
      with Some L have "s = solution"
        by (auto split: option.splits prod.splits bool.splits if_splits)
      with Some Inr show ?thesis by simp
    qed
  qed
qed

section \<open>Boards reached by successful calls\<close>

text \<open>
  Claim C2. For every Board created by \<^verbatim>\<open>New\<close> or \<^verbatim>\<open>NewFromString\<close> (over a layout whose
  map has its 81 entries in 0..8, as every layout accepted by \<^verbatim>\<open>NewLayout\<close> has) and every
  sequence of successful \<^verbatim>\<open>Set\<close>/\<^verbatim>\<open>Clear\<close> calls applied to it: \<^verbatim>\<open>IsValid()\<close> returns true;
  for every filled cell the bit of its digit is set in its row mask, its column mask and its
  region mask; no bit of a mask is set without a cell of that unit holding the digit; and
  \<^verbatim>\<open>emptyCount\<close> is the number of cells holding 0.
\<close>

theorem reachable_board_invariants:
  assumes "layout_ok (origin_layout origin)" and "reachable_board origin ops = Some b"
  shows "Board_IsValid b \<and>
    (\<forall>pos<81. cells b ! pos \<noteq> 0 \<longrightarrow>
       bit (rowMasks b ! rowOf pos) (nat (cells b ! pos - 1)) \<and>
       bit (colMasks b ! colOf pos) (nat (cells b ! pos - 1)) \<and>
       bit (regionMasks b ! regionOf (layout b) pos) (nat (cells b ! pos - 1))) \<and>
    (\<forall>r<9. \<forall>k. bit (rowMasks b ! r) k \<longrightarrow> (\<exists>pos<81. rowOf pos = r \<and> cells b ! pos = int k + 1)) \<and>
    (\<forall>r<9. \<forall>k. bit (colMasks b ! r) k \<longrightarrow> (\<exists>pos<81. colOf pos = r \<and> cells b ! pos = int k + 1)) \<and>
    (\<forall>r<9. \<forall>k. bit (regionMasks b ! r) k \<longrightarrow>
       (\<exists>pos<81. regionOf (layout b) pos = r \<and> cells b ! pos = int k + 1)) \<and>
    Board_EmptyCount b = int (count_list (cells b) 0)"
proof -
  have inv: "board_inv b" using assms by (rule reachable_board_inv)
  have lo: "layout_ok (layout b)" and cok: "cells_ok (cells b)"
    and er: "unit_exact 81 (cells b) rowOf (rowMasks b)"
    and ec: "unit_exact 81 (cells b) colOf (colMasks b)"
    and eg: "unit_exact 81 (cells b) (regionOf (layout b)) (regionMasks b)"
    and cnt: "emptyCount b = int (count_list (cells b) 0)"
    using inv by (simp_all add: board_inv_def)
  have filled: "bit (ms ! u pos) (nat (cells b ! pos - 1))"
    if "unit_exact 81 (cells b) u ms" "pos < 81" "cells b ! pos \<noteq> 0" "u pos < 9" for u ms pos
  proof -
    have "1 \<le> cells b ! pos" using cok that(2,3) unfolding cells_ok_def by force
    then have "cells b ! pos = int (nat (cells b ! pos - 1)) + 1" by simp
    with that show ?thesis unfolding unit_exact_def by blast
  qed
  have "\<forall>pos<81. cells b ! pos \<noteq> 0 \<longrightarrow>
       bit (rowMasks b ! rowOf pos) (nat (cells b ! pos - 1)) \<and>
       bit (colMasks b ! colOf pos) (nat (cells b ! pos - 1)) \<and>
       bit (regionMasks b ! regionOf (layout b) pos) (nat (cells b ! pos - 1))"
    using filled[OF er] filled[OF ec] filled[OF eg] lo
    by (simp add: rowOf_lt colOf_lt regionOf_lt)
  moreover have "\<forall>r<9. \<forall>k. bit (rowMasks b ! r) k \<longrightarrow> (\<exists>pos<81. rowOf pos = r \<and> cells b ! pos = int k + 1)"
    using er unfolding unit_exact_def by blast
  moreover have "\<forall>r<9. \<forall>k. bit (colMasks b ! r) k \<longrightarrow> (\<exists>pos<81. colOf pos = r \<and> cells b ! pos = int k + 1)"
    using ec unfolding unit_exact_def by blast
  moreover have "\<forall>r<9. \<forall>k. bit (regionMasks b ! r) k \<longrightarrow>
       (\<exists>pos<81. regionOf (layout b) pos = r \<and> cells b ! pos = int k + 1)"
    using eg unfolding unit_exact_def by blast
  ultimately show ?thesis
    using board_inv_IsValid[OF inv] cnt by (simp add: Board_EmptyCount_def)
qed

theorem reachable_board_invariants_witness:
  "(case reachable_board
           (FromString ''000000010400000000020000000000050407008000300001090000300400200050100000000806000'' None)
           [OpSet 0 9, OpClear 7, OpSet 80 1] of
      None \<Rightarrow> False
    | Some b \<Rightarrow> Board_IsValid b \<and> Board_EmptyCount b = int (count_list (cells b) 0))"
proof -
  let ?origin = "FromString ''000000010400000000020000000000050407008000300001090000300400200050100000000806000'' None"
  have "reachable_board ?origin [OpSet 0 9, OpClear 7, OpSet 80 1] \<noteq> None"
    by code_simp
  then obtain b where b: "reachable_board ?origin [OpSet 0 9, OpClear 7, OpSet 80 1] = Some b"
    by blast
  have lo: "layout_ok (origin_layout ?origin)"
    by (simp add: layout_board_New_None_ok)
  from reachable_board_invariants[OF lo b] b show ?thesis by simp
qed

section \<open>The string form of a Board\<close>

text \<open>
  Claim C5. For every Board \<open>B\<close> reachable by successful operations,
  \<^verbatim>\<open>NewFromString(B.String(), B.Layout())\<close> succeeds and the String of the Board it returns
  is \<^verbatim>\<open>B.String()\<close>; \<^verbatim>\<open>B.String()\<close> has exactly 81 characters, and the character at index
  \<open>9 * row + col\<close> is that of the cell at \<open>(row, col)\<close>: a dot for an empty cell, the digit
  \<^verbatim>\<open>1\<close>..\<^verbatim>\<open>9\<close> of a filled one.
\<close>

theorem String_roundtrip:
  assumes "layout_ok (origin_layout origin)" and "reachable_board origin ops = Some B"
  shows "(\<exists>b'. NewFromString (Board_String B) (Some (layout B)) = Inr b' \<and>
               Board_String b' = Board_String B) \<and>
    length (Board_String B) = 81 \<and>
    (\<forall>row<9. \<forall>col<9.
       Board_String B ! (9 * row + col) =
         ''.123456789'' ! nat (Board_Get B (MakePos (int row) (int col))) \<and>
       0 \<le> Board_Get B (MakePos (int row) (int col)) \<and>
       Board_Get B (MakePos (int row) (int col)) \<le> 9)"
proof -
  have inv: "board_inv B" using assms by (rule reachable_board_inv)
  have cok: "cells_ok (cells B)" using inv by (simp add: board_inv_def)
  from Board_String_roundtrip[OF inv] obtain b' where
    b': "NewFromString (Board_String B) (Some (layout B)) = Inr b'" "cells b' = cells B" by blast
  then have "Board_String b' = Board_String B" by (simp add: Board_String_def)
  with b' have rt: "\<exists>b'. NewFromString (Board_String B) (Some (layout B)) = Inr b' \<and>
               Board_String b' = Board_String B" by blast
  have len: "length (Board_String B) = 81" using cok by (simp add: Board_String_def cells_ok_def)
  have cellrc: "Board_String B ! (9 * row + col) =
         ''.123456789'' ! nat (Board_Get B (MakePos (int row) (int col))) \<and>
       0 \<le> Board_Get B (MakePos (int row) (int col)) \<and>
       Board_Get B (MakePos (int row) (int col)) \<le> 9" if "row < 9" "col < 9" for row col
  proof -
    have p: "9 * row + col < 81" using that by simp
    have mp: "MakePos (int row) (int col) = int (9 * row + col)"
      using that by (simp add: MakePos_def)
    have g: "Board_Get B (MakePos (int row) (int col)) = cells B ! (9 * row + col)"
      unfolding mp using p by (rule Board_Get_nth)
    show ?thesis
      unfolding g using Board_String_facts(1)[OF inv p] cok p unfolding cells_ok_def by simp
  qed
  show ?thesis using rt len cellrc by blast
qed

theorem String_roundtrip_witness:
  "(case reachable_board
           (FromString ''000000010400000000020000000000050407008000300001090000300400200050100000000806000'' None)
           [OpSet 0 9, OpClear 7] of
      None \<Rightarrow> False
    | Some B \<Rightarrow>
        (\<exists>b'. NewFromString (Board_String B) (Some (layout B)) = Inr b' \<and>
               Board_String b' = Board_String B) \<and>
        Board_String B = ''9........4.........2...........5.4.7..8...3....1.9....3..4..2...5.1........8.6...'' \<and>
        length (Board_String B) = 81)"
proof -
  let ?origin = "FromString ''000000010400000000020000000000050407008000300001090000300400200050100000000806000'' None"
  have "reachable_board ?origin [OpSet 0 9, OpClear 7] \<noteq> None"
    by code_simp
  then obtain B where B: "reachable_board ?origin [OpSet 0 9, OpClear 7] = Some B"
    by blast
  have lo: "layout_ok (origin_layout ?origin)"
    by (simp add: layout_board_New_None_ok)
  have "map_option Board_String (reachable_board ?origin [OpSet 0 9, OpClear 7]) =
      Some ''9........4.........2...........5.4.7..8...3....1.9....3..4..2...5.1........8.6...''"
    by code_simp
  with B have "Board_String B = ''9........4.........2...........5.4.7..8...3....1.9....3..4..2...5.1........8.6...''"
    by simp
  with String_roundtrip[OF lo B] B show ?thesis by simp
qed

section \<open>Parsing a Board\<close>

text \<open>
  Claim C10, as stated, has every 81-character string that places a duplicate digit in a
  row, a column or a region rejected with the error of \<^verbatim>\<open>Set\<close>, \<^verbatim>\<open>IllegalMove\<close>. The source
  reads the characters in index order and stops at the first one it cannot take: in the
  string \<^verbatim>\<open>1x1\<close> followed by 78 dots the digit 1 stands twice in row 0 (positions 0 and 2),
  yet the error is the one of the character \<^verbatim>\<open>x\<close> at position 1.
\<close>

theorem NewFromString_invalid_char_counterexample:
  "length (''1x1'' @ replicate 78 CHR ''.'') = 81 \<and>
   dup_before (layout (board_New None)) (''1x1'' @ replicate 78 CHR ''.'') 2 \<and>
   \<not> string_consistent (layout (board_New None)) (''1x1'' @ replicate 78 CHR ''.'') \<and>
   NewFromString (''1x1'' @ replicate 78 CHR ''.'') None = Inl (ErrInvalidChar CHR ''x'' 1)"
proof -
  let ?s = "''1x1'' @ replicate 78 CHR ''.''"
  let ?l = "layout (board_New None)"
  have d: "dup_before ?l ?s 2"
    unfolding dup_before_def
    by (intro conjI exI[of _ 0]) (simp_all add: digit_char_def same_unit_def rowOf_def)
  then have "\<not> (\<forall>p<81. \<not> dup_before ?l ?s p)" by (intro notI) (simp add: numeral_2_eq_2)
  then have c: "\<not> string_consistent ?l ?s" using no_dup_before_iff[of ?l ?s] by blast
  have e: "NewFromString ?s None = Inl (ErrInvalidChar CHR ''x'' 1)" by code_simp
  have l: "length ?s = 81" by simp
  from l d c e show ?thesis by blast
qed

text \<open>
  Claim C10, amended. \<^verbatim>\<open>NewFromString(s, layout)\<close> succeeds if and only if \<open>s\<close> has length 81,
  every character of \<open>s\<close> is a dot or one of \<^verbatim>\<open>0\<close>..\<^verbatim>\<open>9\<close>, and no digit \<^verbatim>\<open>1\<close>..\<^verbatim>\<open>9\<close> stands twice
  in a row, a column or a region of the layout. A string of another length is rejected
  with the length error. In a string of 81 characters the error is that of the first
  position, in index order, whose character is not one of those, or is a digit that an
  earlier position already placed in its row, its column or its region: the
  invalid-character error naming the character and the position in the first case, the
  error of \<^verbatim>\<open>Set\<close>, \<^verbatim>\<open>IllegalMove\<close>, wrapped with the position in the second. So a string
  that places a duplicate digit is rejected with \<^verbatim>\<open>IllegalMove\<close> exactly when no invalid
  character stands before the position of its first duplicate. Every Board returned
  satisfies \<^verbatim>\<open>IsValid()\<close>.
\<close>

theorem NewFromString_first_offender:
  assumes "layout_ok (layout (board_New lo))"
  shows "((\<exists>b. NewFromString s lo = Inr b) \<longleftrightarrow>
            length s = 81 \<and> (\<forall>ch \<in> set s. valid_char ch) \<and>
            string_consistent (layout (board_New lo)) s) \<and>
         (length s \<noteq> 81 \<longrightarrow> NewFromString s lo = Inl (ErrLength (length s))) \<and>
         (\<forall>p<81. length s = 81 \<and>
            (\<forall>q<p. valid_char (s ! q) \<and> \<not> dup_before (layout (board_New lo)) s q) \<and>
            \<not> valid_char (s ! p) \<longrightarrow>
            NewFromString s lo = Inl (ErrInvalidChar (s ! p) p)) \<and>
         (\<forall>p<81. length s = 81 \<and>
            (\<forall>q<p. valid_char (s ! q) \<and> \<not> dup_before (layout (board_New lo)) s q) \<and>
            dup_before (layout (board_New lo)) s p \<longrightarrow>
            (\<exists>k i. NewFromString s lo =
                     Inl (ErrInvalidBoard p (ErrIllegalMove k (cell_of_char (s ! p)) i)))) \<and>
         (\<forall>b. NewFromString s lo = Inr b \<longrightarrow> Board_IsValid b)"
proof (cases "length s = 81")
  case False
  then show ?thesis by (simp add: NewFromString_def)
next
  case True
  note len = this
  let ?l = "layout (board_New lo)"
  note R = NewFromString_result[OF assms len]
  have vc: "(\<forall>ch \<in> set s. valid_char ch) \<longleftrightarrow> (\<forall>p<81. valid_char (s ! p))"
    using len by (simp add: all_set_conv_all_nth)
  have off: "\<exists>e. NewFromString s lo = Inl e \<and>
      (if valid_char (s ! p)
         then \<exists>k i. e = ErrInvalidBoard p (ErrIllegalMove k (cell_of_char (s ! p)) i)
         else e = ErrInvalidChar (s ! p) p)"
    if p: "p < 81" and first: "\<forall>q<p. valid_char (s ! q) \<and> \<not> dup_before ?l s q"
      and bad: "\<not> valid_char (s ! p) \<or> dup_before ?l s p" for p
  proof (cases "NewFromString s lo")
    case (Inr b)
    with R have v: "\<forall>p<81. valid_char (s ! p)" and c: "string_consistent ?l s" by simp_all
    from c have "\<not> dup_before ?l s p" using no_dup_before_iff[of ?l s] p by blast
    with v p bad show ?thesis by blast
  next
    case (Inl e)
    with R obtain p' where p': "p' < 81"
      "\<forall>q<p'. valid_char (s ! q) \<and> \<not> dup_before ?l s q"
      "if valid_char (s ! p')
         then dup_before ?l s p' \<and>
              (\<exists>k i. e = ErrInvalidBoard p' (ErrIllegalMove k (cell_of_char (s ! p')) i))
         else e = ErrInvalidChar (s ! p') p'" by auto
    have bad': "\<not> valid_char (s ! p') \<or> dup_before ?l s p'"
      using p'(3) by (cases "valid_char (s ! p')") simp_all
    have "\<not> p < p'" using p'(2) bad by blast
    moreover have "\<not> p' < p" using first bad' by blast
    ultimately have "p' = p" by simp
    with p'(3) Inl show ?thesis by (cases "valid_char (s ! p)") simp_all
  qed
  have A: "(\<exists>b. NewFromString s lo = Inr b) \<longleftrightarrow>
            length s = 81 \<and> (\<forall>ch \<in> set s. valid_char ch) \<and> string_consistent ?l s"
  proof (cases "NewFromString s lo")
    case (Inr b)
    with R have "\<forall>p<81. valid_char (s ! p)" "string_consistent ?l s" by simp_all
    with Inr len vc show ?thesis by simp
  next
    case (Inl e)
    with R obtain p where p: "p < 81"
      "if valid_char (s ! p) then dup_before ?l s p else e = ErrInvalidChar (s ! p) p" by auto
    have "\<not> ((\<forall>p<81. valid_char (s ! p)) \<and> string_consistent ?l s)"
    proof (cases "valid_char (s ! p)")
      case True
      with p have "dup_before ?l s p" by simp
      with p(1) have "\<not> string_consistent ?l s" using no_dup_before_iff by blast
      then show ?thesis by simp
    next
      case False
      with p(1) show ?thesis by blast
    qed
    with Inl vc show ?thesis by simp
  qed
  have C: "\<forall>p<81. length s = 81 \<and>
            (\<forall>q<p. valid_char (s ! q) \<and> \<not> dup_before ?l s q) \<and> \<not> valid_char (s ! p) \<longrightarrow>
            NewFromString s lo = Inl (ErrInvalidChar (s ! p) p)"
  proof (intro allI impI)
    fix p assume p: "p < 81"
      and h: "length s = 81 \<and>
            (\<forall>q<p. valid_char (s ! q) \<and> \<not> dup_before ?l s q) \<and> \<not> valid_char (s ! p)"
    from h have f: "\<forall>q<p. valid_char (s ! q) \<and> \<not> dup_before ?l s q"
      and nv: "\<not> valid_char (s ! p)" by simp_all
    from off[OF p f] nv show "NewFromString s lo = Inl (ErrInvalidChar (s ! p) p)" by auto
  qed
  have D: "\<forall>p<81. length s = 81 \<and>
            (\<forall>q<p. valid_char (s ! q) \<and> \<not> dup_before ?l s q) \<and> dup_before ?l s p \<longrightarrow>
            (\<exists>k i. NewFromString s lo =
                     Inl (ErrInvalidBoard p (ErrIllegalMove k (cell_of_char (s ! p)) i)))"
  proof (intro allI impI)
    fix p assume p: "p < 81"
      and h: "length s = 81 \<and>
            (\<forall>q<p. valid_char (s ! q) \<and> \<not> dup_before ?l s q) \<and> dup_before ?l s p"
    from h have f: "\<forall>q<p. valid_char (s ! q) \<and> \<not> dup_before ?l s q"
      and d: "dup_before ?l s p" by simp_all
    from d have v: "valid_char (s ! p)" by (simp add: dup_before_def digit_char_valid)
    from off[OF p f] d v
    show "\<exists>k i. NewFromString s lo =
                     Inl (ErrInvalidBoard p (ErrIllegalMove k (cell_of_char (s ! p)) i))" by auto
  qed
  have E: "\<forall>b. NewFromString s lo = Inr b \<longrightarrow> Board_IsValid b"
    using R by (auto simp: board_inv_IsValid)
  from A len C D E show ?thesis by simp
qed

theorem NewFromString_first_offender_witness:
  "(case NewFromString ''000000010400000000020000000000050407008000300001090000300400200050100000000806000'' None of
      Inl e \<Rightarrow> False | Inr b \<Rightarrow> Board_IsValid b) \<and>
   NewFromString (''1x1'' @ replicate 78 CHR ''.'') None = Inl (ErrInvalidChar CHR ''x'' 1) \<and>
   (\<exists>k i. NewFromString (''11x'' @ replicate 78 CHR ''.'') None =
            Inl (ErrInvalidBoard 1 (ErrIllegalMove k 1 i))) \<and>
   NewFromString ''123'' None = Inl (ErrLength 3)"
proof -
  let ?s = "''000000010400000000020000000000050407008000300001090000300400200050100000000806000''"
  let ?t = "''1x1'' @ replicate 78 CHR ''.''"
  let ?u = "''11x'' @ replicate 78 CHR ''.''"
  let ?l = "layout (board_New None)"
  have "(case NewFromString ?s None of Inl e \<Rightarrow> False | Inr b \<Rightarrow> True)"
    by code_simp
  then obtain b where b: "NewFromString ?s None = Inr b"
    by (cases "NewFromString ?s None") simp_all
  from NewFromString_first_offender[OF layout_board_New_None_ok, of ?s] b
  have 1: "(case NewFromString ?s None of Inl e \<Rightarrow> False | Inr b \<Rightarrow> Board_IsValid b)"
    by simp
  note F = NewFromString_first_offender[OF layout_board_New_None_ok]
  note F2 = F[THEN conjunct2, THEN conjunct1, rule_format]
  note F3 = F[THEN conjunct2, THEN conjunct2, THEN conjunct1, rule_format]
  note F4 = F[THEN conjunct2, THEN conjunct2, THEN conjunct2, THEN conjunct1, rule_format]
  have t0: "\<forall>q<1. valid_char (?t ! q) \<and> \<not> dup_before ?l ?t q"
    by (simp add: valid_char_def dup_before_def)
  have t1: "\<not> valid_char (?t ! 1)" by (simp add: valid_char_def)
  have "NewFromString ?t None = Inl (ErrInvalidChar (?t ! 1) 1)"
    using t0 t1 by (intro F3) simp_all
  then have 2: "NewFromString ?t None = Inl (ErrInvalidChar CHR ''x'' 1)" by simp
  have u0: "\<forall>q<1. valid_char (?u ! q) \<and> \<not> dup_before ?l ?u q"
    by (simp add: valid_char_def dup_before_def)
  have u1: "dup_before ?l ?u 1"
    unfolding dup_before_def
    by (intro conjI exI[of _ 0]) (simp_all add: digit_char_def same_unit_def rowOf_def)
  have cu: "cell_of_char (?u ! 1) = 1" by (simp add: cell_of_char_def)
  have "\<exists>k i. NewFromString ?u None =
            Inl (ErrInvalidBoard 1 (ErrIllegalMove k (cell_of_char (?u ! 1)) i))"
    using u0 u1 by (intro F4) simp_all
  then have 3: "\<exists>k i. NewFromString ?u None = Inl (ErrInvalidBoard 1 (ErrIllegalMove k 1 i))"
    by (simp only: cu)
  have "NewFromString ''123'' None = Inl (ErrLength (length ''123''))"
    by (intro F2) simp
  then have 4: "NewFromString ''123'' None = Inl (ErrLength 3)" by simp
  from 1 2 3 4 show ?thesis by blast
qed

section \<open>NewLayout\<close>

lemma no_bad_position_iff:
  "(\<forall>p<81. \<not> bad_position rm p) \<and> (\<forall>r<9. length (region_positions rm 81 r) = 9) \<longleftrightarrow>
   entries_in_range rm \<and> (\<forall>r<9. card (region_cells rm r) = 9)"
proof
  assume "(\<forall>p<81. \<not> bad_position rm p) \<and> (\<forall>r<9. length (region_positions rm 81 r) = 9)"
  then show "entries_in_range rm \<and> (\<forall>r<9. card (region_cells rm r) = 9)"
    unfolding entries_in_range_def bad_position_def region_cells_card
    by (meson not_le_imp_less not_less)
next
  assume a: "entries_in_range rm \<and> (\<forall>r<9. card (region_cells rm r) = 9)"
  have "\<not> bad_position rm p" if p: "p < 81" for p
  proof
    assume b: "bad_position rm p"
    from a p have rng: "0 \<le> rm ! p" "rm ! p \<le> 8" unfolding entries_in_range_def by auto
    then have r9: "nat (rm ! p) < 9" and rr: "rm ! p = int (nat (rm ! p))" by auto
    from b rng have "9 \<le> length (region_positions rm p (nat (rm ! p)))"
      unfolding bad_position_def by auto
    then have "10 \<le> length (region_positions rm (Suc p) (nat (rm ! p)))"
      using rr by (simp add: region_positions_Suc)
    also have "\<dots> \<le> length (region_positions rm 81 (nat (rm ! p)))"
      using p by (intro region_positions_mono) simp
    also have "\<dots> = 9" using a r9 by (simp add: region_cells_card)
    finally show False by simp
  qed
  with a show "(\<forall>p<81. \<not> bad_position rm p) \<and> (\<forall>r<9. length (region_positions rm 81 r) = 9)"
    by (simp add: region_cells_card)
qed

lemma NewLayout_layout_ok:
  assumes "NewLayout rm = Inr l" "length rm = 81"
  shows "layout_ok l"
proof -
  from NewLayout_result[of rm] assms(1)
  have "\<forall>p<81. \<not> bad_position rm p" "PosToRegion l = rm" by simp_all
  then show ?thesis
    using assms(2) unfolding layout_ok_def bad_position_def
    by (auto simp: in_set_conv_nth) (meson not_le_imp_less not_less)+
qed

lemma S4_region_reach:
  "validateContiguous \<lparr>Type = [], PosToRegion = [],
       RegionToCells = [map int [0, 1, 2, 9, 10, 11, 72, 73, 74]]\<rparr> 0 =
     Some (RegionNotContiguous 0 6 0)"
  by code_simp

lemma S4_region:
  assumes "region_cells rm 0 = {0, 1, 2, 9, 10, 11, 72, 73, 74}"
  shows "region_positions rm 81 0 = [0, 1, 2, 9, 10, 11, 72, 73, 74]"
    and "reach_count rm 0 = 6" and "\<not> contiguous (region_cells rm 0)"
proof -
  let ?ps = "[0, 1, 2, 9, 10, 11, 72, 73, 74] :: nat list"
  have "set (region_positions rm 81 0) = set ?ps"
    using assms by (simp add: region_positions_set)
  moreover have "sorted ?ps" "distinct ?ps" by simp_all
  ultimately show ps: "region_positions rm 81 0 = ?ps"
    using region_positions_sorted[of rm 81 0] region_positions_distinct[of rm 81 0]
    by (metis sorted_distinct_set_unique)
  have "validateContiguous \<lparr>Type = [], PosToRegion = [], RegionToCells = [map int ?ps]\<rparr> 0 =
     (if int (card {q. (hd ?ps, q) \<in> (region_edges (set ?ps))\<^sup>*}) \<noteq> 9
      then Some (RegionNotContiguous 0 (int (card {q. (hd ?ps, q) \<in> (region_edges (set ?ps))\<^sup>*}))
                  (int (hd ?ps)))
      else None)"
    by (rule validateContiguous_result) simp_all
  with S4_region_reach have c: "card {q. (hd ?ps, q) \<in> (region_edges (set ?ps))\<^sup>*} = 6"
    by (simp split: if_splits)
  have S: "region_cells rm 0 = set ?ps" using assms by simp
  show "reach_count rm 0 = 6" unfolding reach_count_def ps S using c by simp
  have "contiguous (set ?ps) \<longleftrightarrow> card {q. (hd ?ps, q) \<in> (region_edges (set ?ps))\<^sup>*} = 9"
    by (rule contiguous_card) simp_all
  with c show "\<not> contiguous (region_cells rm 0)" unfolding S by simp
qed

text \<open>
  Claim C6, as stated, has the three conditions checked in the order range, count,
  contiguity. The source checks the range of an entry and the overflow of its region in
  one pass over the positions: in the map of 80 zeros followed by a 9, the entry at
  position 80 is out of range, yet the error is the one of position 9, where region 0
  receives its tenth cell.
\<close>

theorem NewLayout_order_counterexample:
  "\<not> entries_in_range (replicate 80 0 @ [9]) \<and>
   (replicate 80 0 @ [9]) ! 80 = (9::int) \<and>
   NewLayout (replicate 80 0 @ [9]) = Inl (RegionTooManyCells 0)"
proof -
  have n: "(replicate 80 0 @ [9]) ! 80 = (9::int)" by (simp add: nth_append)
  have "\<not> entries_in_range (replicate 80 0 @ [9])"
  proof
    assume "entries_in_range (replicate 80 0 @ [9])"
    then have "\<forall>p<81. (replicate 80 0 @ [9]) ! p \<le> (8::int)"
      unfolding entries_in_range_def by blast
    then have "(80::nat) < 81 \<longrightarrow> (replicate 80 0 @ [9]) ! 80 \<le> (8::int)" by (rule spec)
    then have "(replicate 80 0 @ [9]) ! 80 \<le> (8::int)" by simp
    with n show False by simp
  qed
  moreover note n
  moreover have "NewLayout (replicate 80 0 @ [9]) = Inl (RegionTooManyCells 0)" by code_simp
  ultimately show ?thesis by blast
qed

text \<open>
  Claim C6, amended. \<^verbatim>\<open>NewLayout(regionMap)\<close> returns a Layout exactly when every entry is in
  0..8, each of the 9 regions receives exactly 9 cells, and each region is orthogonally
  contiguous; otherwise it returns one of the layout errors, never a run-time panic. The
  range of the entries and the overflow of a region are checked together, position by
  position: the error is that of the first position whose entry is out of range or whose
  region already holds 9 cells. A map that passes both is checked for contiguity region by
  region, and the error names the lowest region that is not contiguous. In particular a map
  with its entries in range and 9 cells in each region whose region 0 consists of
  {0,1,2,9,10,11,72,73,74} yields the error naming region 0 (6 of 9 cells reachable from
  cell 0).
\<close>

theorem NewLayout_accepts_iff:
  "((\<exists>l. NewLayout rm = Inr l) \<longleftrightarrow>
      entries_in_range rm \<and> (\<forall>r<9. card (region_cells rm r) = 9) \<and>
      (\<forall>r<9. contiguous (region_cells rm r))) \<and>
   NewLayout rm \<noteq> Inl IndexPanic \<and>
   (\<forall>p<81. bad_position rm p \<and> (\<forall>q<p. \<not> bad_position rm q) \<longrightarrow>
      NewLayout rm = Inl (bad_position_error rm p)) \<and>
   (entries_in_range rm \<and> (\<forall>r<9. card (region_cells rm r) = 9) \<longrightarrow>
      (\<forall>r<9. \<not> contiguous (region_cells rm r) \<and> (\<forall>r'<r. contiguous (region_cells rm r')) \<longrightarrow>
         NewLayout rm =
           Inl (RegionNotContiguous r (int (reach_count rm r)) (int (hd (region_positions rm 81 r)))))) \<and>
   (entries_in_range rm \<and> (\<forall>r<9. card (region_cells rm r) = 9) \<and>
      region_cells rm 0 = {0, 1, 2, 9, 10, 11, 72, 73, 74} \<longrightarrow>
      NewLayout rm = Inl (RegionNotContiguous 0 6 0))"
proof -
  note R = NewLayout_result[of rm]
  note N = no_bad_position_iff[of rm]
  have iff: "(\<exists>l. NewLayout rm = Inr l) \<longleftrightarrow>
      entries_in_range rm \<and> (\<forall>r<9. card (region_cells rm r) = 9) \<and>
      (\<forall>r<9. contiguous (region_cells rm r))"
  proof (cases "NewLayout rm")
    case (Inr l)
    with R N show ?thesis by auto
  next
    case (Inl e)
    with R N show ?thesis by (auto simp: region_cells_card)
  qed
  have np: "NewLayout rm \<noteq> Inl IndexPanic"
  proof
    assume "NewLayout rm = Inl IndexPanic"
    with R show False by (auto simp: bad_position_error_def split: if_splits)
  qed
  have first: "NewLayout rm = Inl (bad_position_error rm p)"
    if "p < 81" "bad_position rm p" "\<forall>q<p. \<not> bad_position rm q" for p
  proof (cases "NewLayout rm")
    case (Inr l)
    with R that show ?thesis by auto
  next
    case (Inl e)
    with R that obtain p' where p': "p' < 81" "bad_position rm p'" "\<forall>q<p'. \<not> bad_position rm q"
      "e = bad_position_error rm p'" by auto
    with that have "p' = p" by (meson linorder_neqE_nat)
    with p' Inl show ?thesis by simp
  qed
  have contig: "NewLayout rm =
           Inl (RegionNotContiguous r (int (reach_count rm r)) (int (hd (region_positions rm 81 r))))"
    if "entries_in_range rm" "\<forall>r<9. card (region_cells rm r) = 9" "r < 9"
      "\<not> contiguous (region_cells rm r)" "\<forall>r'<r. contiguous (region_cells rm r')" for r
  proof (cases "NewLayout rm")
    case (Inr l)
    with R that show ?thesis by auto
  next
    case (Inl e)
    from that N have nb: "\<forall>p<81. \<not> bad_position rm p" "\<forall>r<9. length (region_positions rm 81 r) = 9"
      by auto
    with R Inl obtain r' where r': "r' < 9" "\<not> contiguous (region_cells rm r')"
      "\<forall>r''<r'. contiguous (region_cells rm r'')"
      "e = RegionNotContiguous r' (int (reach_count rm r')) (int (hd (region_positions rm 81 r')))"
      by auto
    with that have "r' = r" by (meson linorder_neqE_nat)
    with r' Inl show ?thesis by simp
  qed
  have s4: "NewLayout rm = Inl (RegionNotContiguous 0 6 0)"
    if "entries_in_range rm" "\<forall>r<9. card (region_cells rm r) = 9"
      "region_cells rm 0 = {0, 1, 2, 9, 10, 11, 72, 73, 74}"
  proof -
    note S = S4_region[OF that(3)]
    from contig[OF that(1,2) _ S(3)] show ?thesis unfolding S(1,2) by simp
  qed
  show ?thesis using iff np first contig s4 by blast
qed

theorem NewLayout_accepts_iff_witness:
  "entries_in_range standard_map \<and> card (region_cells standard_map 4) = 9 \<and>
   contiguous (region_cells standard_map 4)"
proof -
  have "\<exists>l. NewLayout standard_map = Inr l" by (simp add: NewLayout_standard_map)
  with NewLayout_accepts_iff[of standard_map] show ?thesis by simp
qed


section \<open>The solver: determinism and the caller's Board\<close>

text \<open>
  Claim C8. For every input Board and Layout, with \<^verbatim>\<open>Randomize = false\<close> and an unbounded
  (zero) timeout, \<^verbatim>\<open>Solve()\<close> is deterministic: two runs on equal inputs return the same
  result Board and the same error. The two runs below may differ in everything else a run
  reads: the random source and the clock that would seed it, the clock of the context, the
  store and the address of the input Board, and the bound on the depth of the recursion,
  which 82 always meets; both runs return. \<open>eff\<close> is the options in effect (the default
  ones for a \<^verbatim>\<open>nil\<close> argument).
\<close>

theorem Solve_deterministic:
  assumes "eff = (case opts of None \<Rightarrow> dflt | Some o1 \<Rightarrow> o1)"
    and "\<not> Randomize eff" and "solver_Options.Timeout eff = 0"
    and "board_shape (h1 ! a1)" and "h2 ! a2 = h1 ! a1"
    and "82 \<le> fuel1" and "82 \<le> fuel2"
  shows "\<exists>res. Solve_result fuel1 src1 now1 polls1 dflt h1 (Some a1) opts = Some res \<and>
               Solve_result fuel2 src2 now2 polls2 dflt h2 (Some a2) opts = Some res"
proof -
  have l: "length (cells (h1 ! a1)) = 81" using assms(4) by (rule board_shape_length)
  from Solve_board_returns[OF l, of 82 eff 0 None] obtain res where
    r: "Solve_board 82 eff 0 (h1 ! a1, None) = Some res" by auto
  have 1: "Solve_board fuel1 eff polls1 (h1 ! a1, None) = Some res"
    using Solve_board_fuel[OF l assms(6), of eff polls1 None]
      Solve_board_no_deadline[OF assms(3), of 82 polls1 "(h1 ! a1, None)"] r by simp
  have 2: "Solve_board fuel2 eff polls2 (h1 ! a1, None) = Some res"
    using Solve_board_fuel[OF l assms(7), of eff polls2 None]
      Solve_board_no_deadline[OF assms(3), of 82 polls2 "(h1 ! a1, None)"] r by simp
  show ?thesis
    unfolding Solve_result_eq using 1 2 assms(1,2,5)
    by (simp add: Let_def split: prod.splits sum.splits)
qed

theorem Solve_deterministic_witness:
  "\<exists>res. Solve_result 82 (\<lambda>seed. []) 0 0 \<lparr>MaxSolutions = 1, Randomize = True, Timeout = 5\<rparr>
             [board_New None] (Some 0) (Some \<lparr>MaxSolutions = 1, Randomize = False, Timeout = 0\<rparr>)
           = Some res \<and>
         Solve_result 100 (\<lambda>seed. [1, 2, 3]) 7 3 \<lparr>MaxSolutions = 1, Randomize = True, Timeout = 5\<rparr>
             [board_New (Some StandardLayout), board_New None] (Some 1)
             (Some \<lparr>MaxSolutions = 1, Randomize = False, Timeout = 0\<rparr>)
           = Some res"
  using Solve_deterministic[where eff = "\<lparr>MaxSolutions = 1, Randomize = False, Timeout = 0\<rparr>"
      and opts = "Some \<lparr>MaxSolutions = 1, Randomize = False, Timeout = 0\<rparr>"
      and dflt = "\<lparr>MaxSolutions = 1, Randomize = True, Timeout = 5\<rparr>"
      and ?h1.0 = "[board_New None]" and ?a1.0 = 0
      and ?h2.0 = "[board_New (Some StandardLayout), board_New None]" and ?a2.0 = 1
      and ?fuel1.0 = 82 and ?fuel2.0 = 100
      and ?src1.0 = "\<lambda>seed. []" and ?now1.0 = 0 and ?polls1.0 = 0
      and ?src2.0 = "\<lambda>seed. [1, 2, 3]" and ?now2.0 = 7 and ?polls2.0 = 3]
  by (simp add: board_shape_New)

text \<open>
  Claim C7. For every Board \<open>b\<close> (at address \<open>a\<close> of the store \<open>h\<close>): constructing a Solver
  on \<open>b\<close> and calling \<^verbatim>\<open>Solve()\<close>, with any options and any outcome, and calling
  \<^verbatim>\<open>Difficulty(b)\<close>, both return and leave \<open>b\<close>, and every other Board of the caller's,
  unchanged: the solver works on a clone, allocated behind the Boards that exist.
\<close>

theorem Solve_and_Difficulty_keep_board:
  assumes "a < length h" and "board_shape (h ! a)" and "82 \<le> fuel"
  shows "(\<exists>s h1 res s' h'.
            solver_New src now dflt h (Some a) opts = (s, h1) \<and>
            Solver_Solve fuel polls h1 s = Some (res, s', h') \<and>
            take (length h) h' = h \<and> h' ! a = h ! a) \<and>
         (\<exists>res h'. Difficulty fuel src now dflt h (Some a) = Some (res, h') \<and>
            take (length h) h' = h \<and> h' ! a = h ! a)"
proof -
  have l: "length (cells (h ! a)) = 81" using assms(2) by (rule board_shape_length)
  let ?eff = "case opts of None \<Rightarrow> dflt | Some o1 \<Rightarrow> o1"
  let ?r = "if Randomize ?eff then Some (src now) else None"
  let ?s = "\<lparr>Board = Some (length h), options = ?eff, rng = ?r\<rparr>"
  have n: "solver_New src now dflt h (Some a) opts = (?s, h @ [h ! a])"
    by (simp add: solver_New_def Board_Clone_def Let_def)
  from Solve_board_returns[OF l assms(3), of ?eff polls ?r] obtain res b' r' where
    sb: "Solve_board fuel ?eff polls (h ! a, ?r) = Some (res, b', r')" by (metis prod_cases3)
  have s: "Solver_Solve fuel polls (h @ [h ! a]) ?s =
      Some ((case res of Inl e \<Rightarrow> Inl e | Inr u \<Rightarrow> Inr (length h)), ?s\<lparr>Solver.rng := r'\<rparr>,
            (h @ [h ! a])[length h := b'])"
    using sb by (simp add: Solver_Solve_def)
  have t: "take (length h) ((h @ [h ! a])[length h := b']) = h" by simp
  have g: "((h @ [h ! a])[length h := b']) ! a = h ! a"
    using assms(1) by (simp add: nth_append)
  from n s t g have A: "\<exists>s h1 res s' h'.
            solver_New src now dflt h (Some a) opts = (s, h1) \<and>
            Solver_Solve fuel polls h1 s = Some (res, s', h') \<and>
            take (length h) h' = h \<and> h' ! a = h ! a" by blast
  let ?d = "case None of None \<Rightarrow> dflt | Some o1 \<Rightarrow> o1"
  from traceDifficulty_returns[OF l assms(3)] obtain d b2 where
    td: "traceDifficulty fuel (h ! a) = Some (d, b2)" by blast
  have "Difficulty fuel src now dflt h (Some a) = Some (Inr d, (h @ [h ! a])[length h := b2])"
    using td by (simp add: Difficulty_def solver_New_def Board_Clone_def Let_def)
  moreover have "take (length h) ((h @ [h ! a])[length h := b2]) = h" by simp
  moreover have "((h @ [h ! a])[length h := b2]) ! a = h ! a"
    using assms(1) by (simp add: nth_append)
  ultimately have B: "\<exists>res h'. Difficulty fuel src now dflt h (Some a) = Some (res, h') \<and>
            take (length h) h' = h \<and> h' ! a = h ! a" by blast
  from A B show ?thesis by blast
qed

theorem Solve_and_Difficulty_keep_board_witness:
  "(\<exists>s h1 res s' h'.
      solver_New (\<lambda>seed. [nat seed, 4, 1]) 5 \<lparr>MaxSolutions = 1, Randomize = False, Timeout = 0\<rparr>
        [board_New None] (Some 0) (Some \<lparr>MaxSolutions = 1, Randomize = True, Timeout = 9\<rparr>) = (s, h1) \<and>
      Solver_Solve 82 3 h1 s = Some (res, s', h') \<and>
      take (length [board_New None]) h' = [board_New None] \<and> h' ! 0 = [board_New None] ! 0) \<and>
   (\<exists>res h'.
      Difficulty 82 (\<lambda>seed. [nat seed, 4, 1]) 5 \<lparr>MaxSolutions = 1, Randomize = False, Timeout = 0\<rparr>
        [board_New None] (Some 0) = Some (res, h') \<and>
      take (length [board_New None]) h' = [board_New None] \<and> h' ! 0 = [board_New None] ! 0)"
  using Solve_and_Difficulty_keep_board[where a = 0 and h = "[board_New None]" and fuel = 82
      and src = "\<lambda>seed. [nat seed, 4, 1]" and now = 5
      and dflt = "\<lparr>MaxSolutions = 1, Randomize = False, Timeout = 0\<rparr>"
      and opts = "Some \<lparr>MaxSolutions = 1, Randomize = True, Timeout = 9\<rparr>" and polls = 3]
  by (simp add: board_shape_New)


section \<open>The generator: the clue count\<close>

text \<open>
  Claim C4. For every call of \<^verbatim>\<open>Generate\<close> whose options carry a \<^verbatim>\<open>ClueCount\<close> \<open>c\<close> in
  17..80 (over a layout whose map has its 81 entries in 0..8): the call returns; a puzzle
  it returns satisfies \<^verbatim>\<open>puzzle.ClueCount() == c\<close>; and the only error it returns is
  \<^verbatim>\<open>ErrGenerationFailed\<close>, when the clock lets no further attempt begin. An attempt whose
  digging failed (the uniqueness check blocked so many removals that fewer than 81 - \<open>c\<close>
  cells were cleared, so the puzzle holds more than \<open>c\<close> clues, and \<^verbatim>\<open>removeCells\<close> reports
  \<^verbatim>\<open>ErrDiggingFailed\<close>) is not returned: the call goes on as a call with the attempts that
  remain, from the generator's random source as the attempt left it.
\<close>

theorem Generate_clue_count:
  assumes "17 \<le> ClueCount (Generator.options g)" and "ClueCount (Generator.options g) \<le> 80"
    and "layout_ok (layout (board_New (Layout (Generator.options g))))" and "82 \<le> fuel"
  shows "(\<exists>res g'. Generate fuel src g env = Some (res, g') \<and>
            (case res of Inl e \<Rightarrow> e = ErrGenerationFailed
             | Inr (puzzle, solution) \<Rightarrow> Board_ClueCount puzzle = ClueCount (Generator.options g))) \<and>
         (\<forall>a env' solution puzzle e r'.
            0 < generator_Options.Timeout (Generator.options g) \<and>
            generateSolution fuel src (Generator.options g) a = Some (Inr solution) \<and>
            removeCells fuel (Generator.options g) (Generator.rng g) solution =
              Some ((puzzle, Some e), r') \<longrightarrow>
            e = ErrDiggingFailed \<and> ClueCount (Generator.options g) < Board_ClueCount puzzle \<and>
            Generate fuel src g (a # env') = Generate fuel src (g\<lparr>Generator.rng := r'\<rparr>) env')"
proof -
  let ?env = "if generator_Options.Timeout (Generator.options g) \<le> 0 then [] else env"
  from Generate_loop_result[OF assms(4,2), of src ?env "Generator.rng g"] obtain res r' where
    "Generate_loop fuel src (Generator.options g) ?env (Generator.rng g) = Some (res, r')"
    "case res of Inl e \<Rightarrow> e = ErrGenerationFailed
      | Inr (puzzle, solution) \<Rightarrow> Board_ClueCount puzzle = ClueCount (Generator.options g)" by blast
  with assms(1,2) have A: "\<exists>res g'. Generate fuel src g env = Some (res, g') \<and>
            (case res of Inl e \<Rightarrow> e = ErrGenerationFailed
             | Inr (puzzle, solution) \<Rightarrow> Board_ClueCount puzzle = ClueCount (Generator.options g))"
    by (simp add: Generate_def)
  have B: "\<forall>a env' solution puzzle e r'.
            0 < generator_Options.Timeout (Generator.options g) \<and>
            generateSolution fuel src (Generator.options g) a = Some (Inr solution) \<and>
            removeCells fuel (Generator.options g) (Generator.rng g) solution =
              Some ((puzzle, Some e), r') \<longrightarrow>
            e = ErrDiggingFailed \<and> ClueCount (Generator.options g) < Board_ClueCount puzzle \<and>
            Generate fuel src g (a # env') = Generate fuel src (g\<lparr>Generator.rng := r'\<rparr>) env'"
    using Generate_retry[OF assms(4,2) _ assms(1)] by blast
  from A B show ?thesis by (rule conjI)
qed

theorem Generate_clue_count_witness:
  "\<exists>res g'.
     Generate 82 (\<lambda>seed. replicate 200 (nat seed))
       \<lparr>Generator.options =
          \<lparr>ClueCount = 30, Timeout = 10000000000, Seed = 42, EnsureUnique = True, Layout = None\<rparr>,
        Generator.rng = replicate 200 42\<rparr>
       [\<lparr>solver_now = 1, solver_polls = 100\<rparr>, \<lparr>solver_now = 2, solver_polls = 100\<rparr>]
     = Some (res, g') \<and>
     (case res of Inl e \<Rightarrow> e = ErrGenerationFailed
      | Inr (puzzle, solution) \<Rightarrow> Board_ClueCount puzzle = 30)"
proof -
  let ?g = "\<lparr>Generator.options =
          \<lparr>ClueCount = 30, Timeout = 10000000000, Seed = 42, EnsureUnique = True, Layout = None\<rparr>,
        Generator.rng = replicate 200 42\<rparr>"
  let ?env = "[\<lparr>solver_now = 1, solver_polls = 100\<rparr>, \<lparr>solver_now = 2, solver_polls = 100\<rparr>]"
  have "\<exists>res g'. Generate 82 (\<lambda>seed. replicate 200 (nat seed)) ?g ?env = Some (res, g') \<and>
            (case res of Inl e \<Rightarrow> e = ErrGenerationFailed
             | Inr (puzzle, solution) \<Rightarrow> Board_ClueCount puzzle = ClueCount (Generator.options ?g))"
    by (rule Generate_clue_count[where fuel = 82 and g = ?g, THEN conjunct1])
      (simp_all add: layout_board_New_None_ok)
  then obtain res g' where
    G: "Generate 82 (\<lambda>seed. replicate 200 (nat seed)) ?g ?env = Some (res, g')"
    and C: "case res of Inl e \<Rightarrow> e = ErrGenerationFailed
             | Inr (puzzle, solution) \<Rightarrow> Board_ClueCount puzzle = ClueCount (Generator.options ?g)"
    by blast
  have "case res of Inl e \<Rightarrow> e = ErrGenerationFailed
        | Inr (puzzle, solution) \<Rightarrow> Board_ClueCount puzzle = 30"
    using C by (cases res) auto
  with G show ?thesis by blast
qed

section \<open>The generator: the seed\<close>

text \<open>
  Claim C9. With a fixed nonzero \<^verbatim>\<open>Seed\<close>, two calls of \<^verbatim>\<open>Generate\<close> at different wall-clock
  times return identical (puzzle, solution) pairs. The code does otherwise. \<^verbatim>\<open>Seed\<close> fixes the
  generator's own random source, whatever the time at which \<^verbatim>\<open>generator.New\<close> runs; but the
  solution comes from \<^verbatim>\<open>generateSolution\<close>, whose solver is created by \<^verbatim>\<open>solver.New\<close> with
  \<^verbatim>\<open>Randomize\<close> set: that solver's source is seeded with the clock, and the outcome of
  \<^verbatim>\<open>generateSolution\<close> is the same for every \<^verbatim>\<open>Seed\<close>. On the empty standard Board the
  solver first fills three boxes from its source and never changes a filled cell it was
  given. With the source that draws its seed each time, a solver created at time 1 puts the
  digit 1 in cell 0 and one created at time 7 puts 7 there: with \<^verbatim>\<open>Seed\<close> 42 in both, no pair
  returned by a call whose solver is created at time 1 is returned by a call whose solver
  is created at time 7.
\<close>

theorem Generate_pair_follows_clock:
  "generateSolution fuel src (opts\<lparr>Seed := seed\<rparr>) a = generateSolution fuel src opts a \<and>
   generator_New src now1 (Some (opts\<lparr>Seed := 42\<rparr>)) =
     generator_New src now2 (Some (opts\<lparr>Seed := 42\<rparr>)) \<and>
   \<not> (\<exists>puzzle solution g1 g2.
        Generate fuel1 (\<lambda>seed. replicate 40 (nat seed))
          (generator_New (\<lambda>seed. replicate 40 (nat seed)) now1
             (Some (opts\<lparr>Seed := 42, Layout := None\<rparr>)))
          [\<lparr>solver_now = 1, solver_polls = polls1\<rparr>] = Some (Inr (puzzle, solution), g1) \<and>
        Generate fuel2 (\<lambda>seed. replicate 40 (nat seed))
          (generator_New (\<lambda>seed. replicate 40 (nat seed)) now2
             (Some (opts\<lparr>Seed := 42, Layout := None\<rparr>)))
          [\<lparr>solver_now = 7, solver_polls = polls2\<rparr>] = Some (Inr (puzzle, solution), g2))"
proof -
  let ?src = "\<lambda>seed::int. replicate 40 (nat seed)"
  let ?o = "\<lparr>MaxSolutions = 1, Randomize = True, Timeout = 0\<rparr>"
  let ?opts = "opts\<lparr>Seed := 42, Layout := None\<rparr>"
  have A: "generateSolution fuel src (opts\<lparr>Seed := seed\<rparr>) a = generateSolution fuel src opts a"
    by (simp add: generateSolution_def)
  have B: "generator_New src now1 (Some (opts\<lparr>Seed := 42\<rparr>)) =
      generator_New src now2 (Some (opts\<lparr>Seed := 42\<rparr>))"
    by (simp add: generator_New_def)
  have c1: "cells (fst (fillThreeBoxes ?o (board_New None, Some (replicate 40 1)))) ! 0 = 1"
    by code_simp
  have c7: "cells (fst (fillThreeBoxes ?o (board_New None, Some (replicate 40 7)))) ! 0 = 7"
    by code_simp
  have first: "cells s ! 0 = (if t = 1 then 1 else 7)"
    if G: "Generate f ?src (generator_New ?src n (Some ?opts)) [\<lparr>solver_now = t, solver_polls = p\<rparr>] =
             Some (Inr (pz, s), g')" and t: "t = 1 \<or> t = 7" for f n t p pz s g'
  proof -
    have o: "Generator.options (generator_New ?src n (Some ?opts)) = (opts\<lparr>Seed := 42\<rparr>)\<lparr>Layout := None\<rparr>"
      by (simp add: generator_New_def)
    from Generate_single[OF G] have
      "generateSolution f ?src ((opts\<lparr>Seed := 42\<rparr>)\<lparr>Layout := None\<rparr>)
         \<lparr>solver_now = t, solver_polls = p\<rparr> = Some (Inr s)"
      unfolding o .
    from generateSolution_keeps[OF this]
    have k: "keeps (fst (fillThreeBoxes ?o (board_New None, Some (replicate 40 (nat t))))) s"
      by simp
    from t show ?thesis
    proof
      assume "t = 1"
      with k c1 show ?thesis by (simp add: keeps_def)
    next
      assume "t = 7"
      with k c7 show ?thesis by (simp add: keeps_def)
    qed
  qed
  have C: "\<not> (\<exists>puzzle solution g1 g2.
        Generate fuel1 ?src (generator_New ?src now1 (Some ?opts))
          [\<lparr>solver_now = 1, solver_polls = polls1\<rparr>] = Some (Inr (puzzle, solution), g1) \<and>
        Generate fuel2 ?src (generator_New ?src now2 (Some ?opts))
          [\<lparr>solver_now = 7, solver_polls = polls2\<rparr>] = Some (Inr (puzzle, solution), g2))"
  proof
    assume "\<exists>puzzle solution g1 g2.
        Generate fuel1 ?src (generator_New ?src now1 (Some ?opts))
          [\<lparr>solver_now = 1, solver_polls = polls1\<rparr>] = Some (Inr (puzzle, solution), g1) \<and>
        Generate fuel2 ?src (generator_New ?src now2 (Some ?opts))
          [\<lparr>solver_now = 7, solver_polls = polls2\<rparr>] = Some (Inr (puzzle, solution), g2)"
    then obtain puzzle solution g1 g2 where
      1: "Generate fuel1 ?src (generator_New ?src now1 (Some ?opts))
          [\<lparr>solver_now = 1, solver_polls = polls1\<rparr>] = Some (Inr (puzzle, solution), g1)"
      and 2: "Generate fuel2 ?src (generator_New ?src now2 (Some ?opts))
          [\<lparr>solver_now = 7, solver_polls = polls2\<rparr>] = Some (Inr (puzzle, solution), g2)"
      by blast
    from first[OF 1] have "cells solution ! 0 = 1" by simp
    moreover from first[OF 2] have "cells solution ! 0 = 7" by simp
    ultimately show False by simp
  qed
  from A B C show ?thesis by (intro conjI)
qed


end
